theory Spec2Isabelle
  imports Complex_Main "HOL-Library.Monad_Syntax"
begin

section \<open>Dates and the work calendar\<close>

text \<open>
  A JavaScript \<open>Date\<close> is its epoch value in milliseconds. The model reads calendar
  days in UTC: \<open>addDays\<close> of date-fns moves the value by whole days of 86400000 ms, and
  two dates fall on the same calendar day when their day numbers agree. The work calendar
  (\<open>isHoliday\<close> of the holiday store) is consumed as a predicate on dates and is a
  parameter \<open>hol\<close> of every function that queries it.
\<close>

type_synonym Date = int

definition msPerDay :: int where
  "msPerDay = 86400000"

definition addDays :: "Date \<Rightarrow> int \<Rightarrow> Date" where
  "addDays d n = d + n * msPerDay"

definition sameDay :: "Date \<Rightarrow> Date \<Rightarrow> bool" where
  "sameDay a b = (a div msPerDay = b div msPerDay)"

text \<open>
  The loop of \<open>calculateEndDate\<close>: it steps one day at a time and counts the days
  that are no holiday. It runs forever when the calendar has no working day left, so its
  result is an option and not returning is \<open>None\<close>.
\<close>

partial_function (option) endDateLoop ::
  "(Date \<Rightarrow> bool) \<Rightarrow> Date \<Rightarrow> int \<Rightarrow> int \<Rightarrow> Date option" where
  "endDateLoop hol result daysToAdd daysAdded =
     (if daysAdded < daysToAdd
      then (let r = addDays result 1
            in if \<not> hol r then endDateLoop hol r daysToAdd (daysAdded + 1)
               else endDateLoop hol r daysToAdd daysAdded)
      else Some result)"

declare endDateLoop.simps [code]

definition calculateEndDate ::
  "(Date \<Rightarrow> bool) \<Rightarrow> Date \<Rightarrow> int \<Rightarrow> bool \<Rightarrow> Date option" where
  "calculateEndDate hol startDate duration excludeHolidays =
     (if duration = 1 then Some startDate
      else if \<not> excludeHolidays then Some (addDays startDate (duration - 1))
      else endDateLoop hol startDate (duration - 1) 0)"

function durationLoop :: "(Date \<Rightarrow> bool) \<Rightarrow> Date \<Rightarrow> Date \<Rightarrow> int \<Rightarrow> int" where
  "durationLoop hol currentDate endDate count =
     (if currentDate \<le> endDate
      then durationLoop hol (addDays currentDate 1) endDate
             (if \<not> hol currentDate then count + 1 else count)
      else count)"
  by pat_completeness auto
termination
  by (relation "measure (\<lambda>(hol, c, e, n). nat (e - c + 1))")
     (auto simp: addDays_def msPerDay_def)

declare durationLoop.simps [simp del]

definition differenceInDays :: "Date \<Rightarrow> Date \<Rightarrow> int" where
  "differenceInDays l r =
     (if r \<le> l then (l - r) div msPerDay else - ((r - l) div msPerDay))"

definition calculateDuration ::
  "(Date \<Rightarrow> bool) \<Rightarrow> Date \<Rightarrow> Date \<Rightarrow> bool \<Rightarrow> int" where
  "calculateDuration hol startDate endDate excludeHolidays =
     (if sameDay startDate endDate then 1
      else if \<not> excludeHolidays then differenceInDays endDate startDate + 1
      else durationLoop hol startDate endDate 0)"

text \<open>
  Auxiliary notions used to state properties of the date arithmetic: the number of working
  days among \<open>k\<close> consecutive days from \<open>s\<close>, a calendar in which every date
  is followed by a working day, and the calendar that excludes Sundays only (the epoch day
  0 is a Thursday, so the days 3, 10, 17, ... are Sundays).
\<close>

fun countWorking :: "(Date \<Rightarrow> bool) \<Rightarrow> Date \<Rightarrow> nat \<Rightarrow> nat" where
  "countWorking hol s 0 = 0"
| "countWorking hol s (Suc k) =
     (if \<not> hol s then 1 else 0) + countWorking hol (addDays s 1) k"

definition workingDaysUnbounded :: "(Date \<Rightarrow> bool) \<Rightarrow> bool" where
  "workingDaysUnbounded hol = (\<forall>d. \<exists>k>0. \<not> hol (addDays d (int k)))"

definition sundaysOff :: "Date \<Rightarrow> bool" where
  "sundaysOff d = ((d div msPerDay) mod 7 = 3)"

section \<open>Strings\<close>

text \<open>
  Predecessor references are text. The model keeps ASCII strings and follows the
  JavaScript operations the code uses: \<open>trim\<close>, \<open>split(',')\<close>, \<open>join(',')\<close>,
  \<open>parseInt\<close> without a radix (leading white space, a sign, a \<open>0x\<close> prefix, then the
  longest run of digits; \<open>NaN\<close> is \<open>None\<close>) and \<open>String\<close> of an integer.
\<close>

definition isSpace :: "char \<Rightarrow> bool" where
  "isSpace c = (c \<in> set [CHR '' '', CHR 0x09, CHR 0x0A, CHR 0x0B, CHR 0x0C, CHR 0x0D])"

definition trim :: "string \<Rightarrow> string" where
  "trim s = rev (dropWhile isSpace (rev (dropWhile isSpace s)))"

fun splitOn :: "char \<Rightarrow> string \<Rightarrow> string list" where
  "splitOn sep [] = [[]]"
| "splitOn sep (c # cs) =
     (if c = sep then [] # splitOn sep cs
      else (case splitOn sep cs of [] \<Rightarrow> [[c]] | w # ws \<Rightarrow> (c # w) # ws))"

fun joinWith :: "string \<Rightarrow> string list \<Rightarrow> string" where
  "joinWith sep [] = []"
| "joinWith sep [x] = x"
| "joinWith sep (x # y # ys) = x @ sep @ joinWith sep (y # ys)"

definition decDigit :: "char \<Rightarrow> nat option" where
  "decDigit c = (let n = (of_char c :: nat) in if 48 \<le> n \<and> n \<le> 57 then Some (n - 48) else None)"

definition hexDigit :: "char \<Rightarrow> nat option" where
  "hexDigit c =
     (let n = (of_char c :: nat)
      in if 48 \<le> n \<and> n \<le> 57 then Some (n - 48)
         else if 97 \<le> n \<and> n \<le> 102 then Some (n - 87)
         else if 65 \<le> n \<and> n \<le> 70 then Some (n - 55)
         else None)"

fun parseDigits :: "(char \<Rightarrow> nat option) \<Rightarrow> nat \<Rightarrow> string \<Rightarrow> nat option \<Rightarrow> nat option" where
  "parseDigits dv radix [] acc = acc"
| "parseDigits dv radix (c # cs) acc =
     (case dv c of
        None \<Rightarrow> acc
      | Some d \<Rightarrow> parseDigits dv radix cs
                    (Some (radix * (case acc of None \<Rightarrow> 0 | Some a \<Rightarrow> a) + d)))"

definition parseInt :: "string \<Rightarrow> int option" where
  "parseInt s =
     (let s1 = dropWhile isSpace s;
          neg = (take 1 s1 = ''-'');
          s2 = (if take 1 s1 = ''-'' \<or> take 1 s1 = ''+'' then drop 1 s1 else s1);
          hex = (take 2 s2 = ''0x'' \<or> take 2 s2 = ''0X'');
          r = (if hex then parseDigits hexDigit 16 (drop 2 s2) None
               else parseDigits decDigit 10 s2 None)
      in map_option (\<lambda>n. if neg then - int n else int n) r)"

definition digitChar :: "nat \<Rightarrow> char" where
  "digitChar n = char_of (48 + n)"

function showNat :: "nat \<Rightarrow> string" where
  "showNat n = (if n < 10 then [digitChar n] else showNat (n div 10) @ [digitChar (n mod 10)])"
  by pat_completeness auto
termination
  by (relation "measure id") auto

declare showNat.simps [simp del]

definition String :: "int \<Rightarrow> string" where
  "String n = (if n < 0 then CHR ''-'' # showNat (nat (- n)) else showNat (nat n))"

text \<open>
  The expression
  \<^verbatim>\<open>text.split(',').map(id => parseInt(id.trim())).filter(id => !isNaN(id))\<close>
  occurs in every function that reads a predecessor list.
\<close>

definition parseSiNos :: "string \<Rightarrow> int list" where
  "parseSiNos text = List.map_filter (\<lambda>part. parseInt (trim part)) (splitOn CHR '','' text)"

section \<open>Numbers\<close>

text \<open>
  A JavaScript number is an IEEE 754 binary64 value. \<open>Num r\<close> is the finite value
  \<open>r\<close>; the two zeros are not told apart (every operation modelled here gives the same
  result, up to the sign of a zero, for both). \<open>toDouble\<close> rounds an exact rational to
  the nearest binary64 value, a tie to the even significand: the unit in the last place
  is \<open>2 ^ e\<close> with \<open>e\<close> the exponent of the value less 52, not below \<open>- 1074\<close>
  (the subnormal range), and a result of \<open>2 ^ 1024\<close> or more is an infinity.
\<close>

datatype number = Num rat | NaN | PosInfinity | NegInfinity

function twoPow :: "int \<Rightarrow> rat" where
  "twoPow e = (if e \<le> 0 then 1
               else let h = twoPow (e div 2) in if even e then h * h else 2 * h * h)"
  by pat_completeness auto
termination
  by (relation "measure nat") simp_all

declare twoPow.simps [simp del]

definition pow2 :: "int \<Rightarrow> rat" where
  "pow2 e = (if 0 \<le> e then twoPow e else 1 / twoPow (- e))"

function bitLength :: "int \<Rightarrow> int" where
  "bitLength n = (if n \<le> 0 then 0 else 1 + bitLength (n div 2))"
  by pat_completeness auto
termination
  by (relation "measure nat") simp_all

declare bitLength.simps [simp del]

text \<open>The exponent of a positive rational: the \<open>k\<close> with \<open>2 ^ k \<le> x < 2 ^ (k + 1)\<close>.\<close>

definition floorLog2 :: "rat \<Rightarrow> int" where
  "floorLog2 x =
     (let (p, q) = quotient_of x;
          d = bitLength p - bitLength q
      in if pow2 d \<le> x then d else d - 1)"

definition roundHalfEven :: "rat \<Rightarrow> int" where
  "roundHalfEven y =
     (let m = \<lfloor>y\<rfloor>; f = y - of_int m
      in if f < 1 / 2 then m else if 1 / 2 < f then m + 1 else if even m then m else m + 1)"

definition toDouble :: "rat \<Rightarrow> number" where
  "toDouble x =
     (if x = 0 then Num 0
      else let a = \<bar>x\<bar>;
               e = max (floorLog2 a - 52) (- 1074);
               r = of_int (roundHalfEven (a / pow2 e)) * pow2 e
           in if r = 0 then Num 0
              else if 1024 \<le> floorLog2 r then (if 0 < x then PosInfinity else NegInfinity)
              else Num (if 0 < x then r else - r))"

text \<open>
  The arithmetic the aggregation of progress uses: the sum of two numbers, the product
  and the quotient of a number and a positive finite number (the number of children and
  the constant 10), \<open>Math.round\<close> (the nearest integer, a half up; its result is exact,
  since a binary64 value of magnitude \<open>2 ^ 52\<close> or more is an integer),
  \<open>Math.max\<close>, \<open>Math.min\<close> and \<open>Number(x) || 0\<close>.
\<close>

fun addNumber :: "number \<Rightarrow> number \<Rightarrow> number" where
  "addNumber (Num a) (Num b) = toDouble (a + b)"
| "addNumber NaN y = NaN"
| "addNumber x NaN = NaN"
| "addNumber PosInfinity NegInfinity = NaN"
| "addNumber NegInfinity PosInfinity = NaN"
| "addNumber PosInfinity y = PosInfinity"
| "addNumber x PosInfinity = PosInfinity"
| "addNumber NegInfinity y = NegInfinity"
| "addNumber x NegInfinity = NegInfinity"

definition timesPositive :: "number \<Rightarrow> rat \<Rightarrow> number" where
  "timesPositive x c = (case x of Num a \<Rightarrow> toDouble (a * c) | _ \<Rightarrow> x)"

definition overPositive :: "number \<Rightarrow> rat \<Rightarrow> number" where
  "overPositive x c = (case x of Num a \<Rightarrow> toDouble (a / c) | _ \<Rightarrow> x)"

definition mathRound :: "number \<Rightarrow> number" where
  "mathRound x = (case x of Num a \<Rightarrow> Num (of_int \<lfloor>a + 1 / 2\<rfloor>) | _ \<Rightarrow> x)"

fun mathMax :: "number \<Rightarrow> number \<Rightarrow> number" where
  "mathMax (Num a) (Num b) = Num (max a b)"
| "mathMax NaN y = NaN"
| "mathMax x NaN = NaN"
| "mathMax PosInfinity y = PosInfinity"
| "mathMax x PosInfinity = PosInfinity"
| "mathMax NegInfinity y = y"
| "mathMax x NegInfinity = x"

fun mathMin :: "number \<Rightarrow> number \<Rightarrow> number" where
  "mathMin (Num a) (Num b) = Num (min a b)"
| "mathMin NaN y = NaN"
| "mathMin x NaN = NaN"
| "mathMin NegInfinity y = NegInfinity"
| "mathMin x NegInfinity = NegInfinity"
| "mathMin PosInfinity y = y"
| "mathMin x PosInfinity = x"

definition numberOrZero :: "number \<Rightarrow> number" where
  "numberOrZero x = (if x = NaN then Num 0 else x)"

section \<open>Tasks\<close>

text \<open>
  The fields of \<open>Task\<close> that the scheduling and hierarchy engine reads or writes.
  A field of type \<open>T | null\<close> is an option; \<open>progress\<close> is a JavaScript number;
  the ordinal, the depth and the durations are integers; the optional flags \<open>isDeleted\<close>
  and \<open>isParent\<close> are read for truthiness only and are booleans.
\<close>

record Task =
  id :: string
  siNo :: int
  wbsNo :: string
  predecessorIds :: "string option"
  level :: int
  startDate :: "Date option"
  endDate :: "Date option"
  duration :: "int option"
  actualStartDate :: "Date option"
  actualEndDate :: "Date option"
  actualDuration :: "int option"
  progress :: number
  isDeleted :: bool
  isParent :: bool

section \<open>Predecessor-driven dates\<close>

definition getMaxPredecessorEndDate :: "Task list \<Rightarrow> string \<Rightarrow> Date option" where
  "getMaxPredecessorEndDate tasks predIds =
     (if trim predIds = [] then None
      else let siNos = parseSiNos predIds
           in if siNos = [] then None
              else let predecessors =
                         filter (\<lambda>t. \<not> isDeleted t \<and> siNo t \<in> set siNos \<and> endDate t \<noteq> None) tasks
                   in if predecessors = [] then None
                      else Some (Max (set (map (\<lambda>t. the (endDate t)) predecessors))))"

text \<open>A duration is truthy when it is set and not zero.\<close>

definition truthyNum :: "int option \<Rightarrow> bool" where
  "truthyNum d = (case d of None \<Rightarrow> False | Some n \<Rightarrow> n \<noteq> 0)"

definition adjustPlanned :: "(Date \<Rightarrow> bool) \<Rightarrow> Task \<Rightarrow> Task option" where
  "adjustPlanned hol t =
     (case startDate t of
        None \<Rightarrow> Some t
      | Some s \<Rightarrow>
          if truthyNum (duration t) \<and> endDate t = None
          then map_option (\<lambda>e. t\<lparr>endDate := Some e\<rparr>) (calculateEndDate hol s (the (duration t)) True)
          else if endDate t \<noteq> None \<and> \<not> truthyNum (duration t)
          then Some (t\<lparr>duration := Some (calculateDuration hol s (the (endDate t)) True)\<rparr>)
          else if truthyNum (duration t) \<and> endDate t \<noteq> None
          then map_option (\<lambda>e. t\<lparr>endDate := Some e\<rparr>) (calculateEndDate hol s (the (duration t)) True)
          else Some t)"

definition adjustActual :: "(Date \<Rightarrow> bool) \<Rightarrow> Task \<Rightarrow> Task option" where
  "adjustActual hol t =
     (case actualStartDate t of
        None \<Rightarrow> Some t
      | Some s \<Rightarrow>
          if truthyNum (actualDuration t) \<and> actualEndDate t = None
          then map_option (\<lambda>e. t\<lparr>actualEndDate := Some e\<rparr>)
                 (calculateEndDate hol s (the (actualDuration t)) True)
          else if actualEndDate t \<noteq> None \<and> \<not> truthyNum (actualDuration t)
          then Some (t\<lparr>actualDuration := Some (calculateDuration hol s (the (actualEndDate t)) True)\<rparr>)
          else if truthyNum (actualDuration t) \<and> actualEndDate t \<noteq> None
          then Some (t\<lparr>actualDuration := Some (calculateDuration hol s (the (actualEndDate t)) True)\<rparr>)
          else Some t)"

definition adjustDates :: "(Date \<Rightarrow> bool) \<Rightarrow> Task \<Rightarrow> Task option" where
  "adjustDates hol task = Option.bind (adjustPlanned hol task) (adjustActual hol)"

text \<open>
  \<open>adjustTaskDatesWithPredecessors\<close> assigns to the fields of the record it is given
  and then returns \<open>adjustDates\<close> of it. \<open>adjustInPlace\<close> is the record after those
  assignments: the predecessor rule, the actual duration and the progress.
\<close>

definition noPredecessors :: "Task \<Rightarrow> bool" where
  "noPredecessors task =
     (case predecessorIds task of None \<Rightarrow> True | Some p \<Rightarrow> trim p = [] \<or> p = ''0'')"

definition ceilDays :: "int \<Rightarrow> int" where
  "ceilDays ms = - ((- ms) div msPerDay)"

definition pushStart :: "(Date \<Rightarrow> bool) \<Rightarrow> Task \<Rightarrow> Date \<Rightarrow> Task option" where
  "pushStart hol task maxPredEndDate =
     (let newStartDate = addDays maxPredEndDate 1
      in if startDate task = None \<or> the (startDate task) \<le> maxPredEndDate
         then (let originalDuration = duration task;
                   t = task\<lparr>startDate := Some newStartDate\<rparr>
               in if originalDuration \<noteq> None \<and> 0 < the originalDuration
                  then map_option (\<lambda>e. t\<lparr>endDate := Some e, duration := originalDuration\<rparr>)
                         (calculateEndDate hol newStartDate (the originalDuration) True)
                  else if endDate t \<noteq> None
                  then Some (t\<lparr>duration :=
                               Some (max 1 (ceilDays (the (endDate t) - newStartDate) + 1))\<rparr>)
                  else Some (t\<lparr>duration := Some 1, endDate := Some newStartDate\<rparr>))
         else Some task)"

definition adjustInPlace :: "(Date \<Rightarrow> bool) \<Rightarrow> Task \<Rightarrow> Task list \<Rightarrow> Task option" where
  "adjustInPlace hol task allTasks =
     Option.bind
       (case getMaxPredecessorEndDate allTasks (the (predecessorIds task)) of
          None \<Rightarrow> Some task
        | Some m \<Rightarrow> pushStart hol task m)
       (\<lambda>t1.
          let t2 = (if actualStartDate t1 \<noteq> None \<and> actualEndDate t1 \<noteq> None
                    then t1\<lparr>actualDuration :=
                            Some (calculateDuration hol (the (actualStartDate t1))
                                    (the (actualEndDate t1)) True)\<rparr>
                    else t1\<lparr>actualDuration := None\<rparr>)
          in Some (if actualEndDate t2 \<noteq> None then t2\<lparr>progress := Num 100\<rparr> else t2))"

definition adjustTaskDatesWithPredecessors ::
  "(Date \<Rightarrow> bool) \<Rightarrow> Task \<Rightarrow> Task list \<Rightarrow> Task option" where
  "adjustTaskDatesWithPredecessors hol task allTasks =
     (if noPredecessors task then adjustDates hol task
      else Option.bind (adjustInPlace hol task allTasks) (adjustDates hol))"

text \<open>
  The record that \<open>addTaskAfter\<close> creates for a new task with identifier \<open>i\<close>,
  ordinal \<open>n\<close> and depth \<open>l\<close>: no dates, duration 0, progress 0 and the sentinel
  predecessor text.
\<close>

definition blankTask :: "string \<Rightarrow> int \<Rightarrow> int \<Rightarrow> Task" where
  "blankTask i n l =
     \<lparr>id = i, siNo = n, wbsNo = String n, predecessorIds = Some ''0'', level = l,
      startDate = None, endDate = None, duration = Some 0,
      actualStartDate = None, actualEndDate = None, actualDuration = None,
      progress = Num 0, isDeleted = False, isParent = False\<rparr>"

section \<open>Hierarchy over the flat list\<close>

text \<open>
  \<open>Array.prototype.findIndex\<close>: the index of the first element that satisfies the
  predicate, or \<open>-1\<close>.
\<close>

fun findIndex :: "('a \<Rightarrow> bool) \<Rightarrow> 'a list \<Rightarrow> int" where
  "findIndex P [] = - 1"
| "findIndex P (x # xs) =
     (if P x then 0 else (let r = findIndex P xs in if r < 0 then - 1 else r + 1))"

subsection \<open>Hierarchical labels\<close>

text \<open>
  \<open>processChildren\<close> scans the tasks after a parent, stops at the first task that is
  not deeper than the parent, labels every task one level deeper and descends into it.
  The label map is a \<open>Map\<close> from task identifiers to labels.
\<close>

function processChildrenLoop ::
  "Task list \<Rightarrow> int \<Rightarrow> string \<Rightarrow> nat \<Rightarrow> int \<Rightarrow> (string \<rightharpoonup> string) \<Rightarrow> (string \<rightharpoonup> string)" where
  "processChildrenLoop tasks parentLevel parentWbs i childCounter wbsMap =
     (if i < length tasks
      then (let currentTask = tasks ! i
            in if level currentTask \<le> parentLevel then wbsMap
               else if level currentTask = parentLevel + 1
               then (let childWbs = parentWbs @ ''.'' @ String childCounter;
                         m1 = wbsMap(id currentTask \<mapsto> childWbs);
                         m2 = processChildrenLoop tasks (level currentTask) childWbs (i + 1) 1 m1
                     in processChildrenLoop tasks parentLevel parentWbs (i + 1) (childCounter + 1) m2)
               else processChildrenLoop tasks parentLevel parentWbs (i + 1) childCounter wbsMap)
      else wbsMap)"
  by pat_completeness auto
termination
  by (relation "measure (\<lambda>(tasks, pl, pw, i, cc, m). length tasks - i)") auto

declare processChildrenLoop.simps [simp del]

definition processChildren ::
  "Task list \<Rightarrow> Task \<Rightarrow> nat \<Rightarrow> string \<Rightarrow> (string \<rightharpoonup> string) \<Rightarrow> (string \<rightharpoonup> string)" where
  "processChildren tasks parentTask parentIndex parentWbs wbsMap =
     processChildrenLoop tasks (level parentTask) parentWbs (parentIndex + 1) 1 wbsMap"

fun level0Numbers :: "Task list \<Rightarrow> int \<Rightarrow> (string \<rightharpoonup> string) \<Rightarrow> (string \<rightharpoonup> string)" where
  "level0Numbers [] level0Counter wbsMap = wbsMap"
| "level0Numbers (task # rest) level0Counter wbsMap =
     (if level task = 0
      then level0Numbers rest (level0Counter + 1) (wbsMap(id task \<mapsto> String level0Counter))
      else level0Numbers rest level0Counter wbsMap)"

function level0ChildrenLoop ::
  "Task list \<Rightarrow> Task \<Rightarrow> string \<Rightarrow> nat \<Rightarrow> int \<Rightarrow> (string \<rightharpoonup> string) \<Rightarrow> (string \<rightharpoonup> string)" where
  "level0ChildrenLoop activeTasks task parentWbs j childCounter wbsMap =
     (if j < length activeTasks
      then (let nextTask = activeTasks ! j
            in if level nextTask = 0 then wbsMap
               else if level nextTask = level task + 1
               then (let childWbs = parentWbs @ ''.'' @ String childCounter;
                         m1 = wbsMap(id nextTask \<mapsto> childWbs);
                         m2 = processChildren activeTasks nextTask j childWbs m1
                     in level0ChildrenLoop activeTasks task parentWbs (j + 1) (childCounter + 1) m2)
               else level0ChildrenLoop activeTasks task parentWbs (j + 1) childCounter wbsMap)
      else wbsMap)"
  by pat_completeness auto
termination
  by (relation "measure (\<lambda>(tasks, t, pw, j, cc, m). length tasks - j)") auto

declare level0ChildrenLoop.simps [simp del]

definition wbsOfRoot :: "Task list \<Rightarrow> (string \<rightharpoonup> string) \<Rightarrow> nat \<Rightarrow> (string \<rightharpoonup> string)" where
  "wbsOfRoot activeTasks wbsMap i =
     (let task = activeTasks ! i
      in if level task \<noteq> 0 then wbsMap
         else level0ChildrenLoop activeTasks task (the (wbsMap (id task))) (i + 1) 1 wbsMap)"

definition updateWbsNumbers :: "Task list \<Rightarrow> Task list" where
  "updateWbsNumbers tasks =
     (let activeTasks = filter (\<lambda>t. \<not> isDeleted t) tasks;
          m0 = level0Numbers activeTasks 1 Map.empty;
          wbsMap = foldl (wbsOfRoot activeTasks) m0 [0..<length activeTasks]
      in map (\<lambda>task. if isDeleted task then task
                      else task\<lparr>wbsNo := (case wbsMap (id task) of
                                             None \<Rightarrow> wbsNo task
                                           | Some w \<Rightarrow> if w = [] then wbsNo task else w)\<rparr>)
           tasks)"

subsection \<open>Indent and outdent\<close>

text \<open>
  A thrown \<open>Error\<close> is the left summand of the result. The task above the selection
  is read only inside the loop over the selected tasks; with no selected task the loop
  does not run and the task is never read, so the model delays the read.
\<close>

datatype StructuralError =
    CannotIndentFirstTask
  | IndentNotContiguous
  | CannotOutdentRootLevel
  | OutdentNotContiguous

fun contiguousIndices :: "int list \<Rightarrow> bool" where
  "contiguousIndices (a # b # rest) = (b = a + 1 \<and> contiguousIndices (b # rest))"
| "contiguousIndices _ = True"

definition selectedIndicesOf :: "Task list \<Rightarrow> Task list \<Rightarrow> int list" where
  "selectedIndicesOf visibleTasks selectedTasks =
     sort (map (\<lambda>task. findIndex (\<lambda>t. id t = id task) visibleTasks) selectedTasks)"

definition setLevelById :: "(Task \<Rightarrow> int) \<Rightarrow> Task list \<Rightarrow> Task \<Rightarrow> Task list" where
  "setLevelById newLevel newTasks task =
     (let taskIndex = findIndex (\<lambda>t. id t = id task) newTasks
      in if taskIndex \<noteq> - 1
         then newTasks[nat taskIndex := (newTasks ! nat taskIndex)\<lparr>level := newLevel (newTasks ! nat taskIndex)\<rparr>]
         else newTasks)"

definition updateTaskLevelsForIndent :: "Task list \<Rightarrow> string set \<Rightarrow> StructuralError + Task list" where
  "updateTaskLevelsForIndent tasks selectedIds =
     (if selectedIds = {} then Inr tasks
      else let visibleTasks = filter (\<lambda>t. \<not> isDeleted t) tasks;
               selectedTasks = filter (\<lambda>t. id t \<in> selectedIds) visibleTasks;
               selectedIndices = selectedIndicesOf visibleTasks selectedTasks
           in if 0 \<in> set selectedIndices then Inl CannotIndentFirstTask
              else if \<not> contiguousIndices selectedIndices then Inl IndentNotContiguous
              else let newTasks =
                         foldl (setLevelById
                                  (\<lambda>t. let parentTask = visibleTasks ! nat (hd selectedIndices - 1);
                                           maxAllowedLevel = level parentTask + 1
                                       in min (level t + 1) maxAllowedLevel))
                           tasks selectedTasks
                   in Inr (updateWbsNumbers newTasks))"

definition updateTaskLevelsForOutdent :: "Task list \<Rightarrow> string set \<Rightarrow> StructuralError + Task list" where
  "updateTaskLevelsForOutdent tasks selectedIds =
     (if selectedIds = {} then Inr tasks
      else let visibleTasks = filter (\<lambda>t. \<not> isDeleted t) tasks;
               selectedTasks = filter (\<lambda>t. id t \<in> selectedIds) visibleTasks;
               selectedIndices = selectedIndicesOf visibleTasks selectedTasks
           in if selectedTasks \<noteq> [] \<and> Min (set (map level selectedTasks)) = 0
              then Inl CannotOutdentRootLevel
              else if \<not> contiguousIndices selectedIndices then Inl OutdentNotContiguous
              else let newTasks = foldl (setLevelById (\<lambda>t. max 0 (level t - 1))) tasks selectedTasks
                   in Inr (updateWbsNumbers newTasks))"

text \<open>
  The selection read as positions: the positions of the selected tasks among the
  non-deleted ones, and whether they form one run of consecutive positions.
\<close>

definition selectedPositions :: "Task list \<Rightarrow> string set \<Rightarrow> nat list" where
  "selectedPositions tasks selectedIds =
     (let visibleTasks = filter (\<lambda>t. \<not> isDeleted t) tasks
      in filter (\<lambda>i. id (visibleTasks ! i) \<in> selectedIds) [0..<length visibleTasks])"

definition contiguousRun :: "Task list \<Rightarrow> string set \<Rightarrow> bool" where
  "contiguousRun tasks selectedIds =
     (let ps = selectedPositions tasks selectedIds
      in ps = [] \<or> ps = [hd ps..<hd ps + length ps])"

definition firstTaskSelected :: "Task list \<Rightarrow> string set \<Rightarrow> bool" where
  "firstTaskSelected tasks selectedIds =
     (case filter (\<lambda>t. \<not> isDeleted t) tasks of [] \<Rightarrow> False | t # _ \<Rightarrow> id t \<in> selectedIds)"

definition rootTaskSelected :: "Task list \<Rightarrow> string set \<Rightarrow> bool" where
  "rootTaskSelected tasks selectedIds =
     (filter (\<lambda>t. \<not> isDeleted t \<and> id t \<in> selectedIds \<and> level t = 0) tasks \<noteq> [])"

subsection \<open>Parents, children and siblings\<close>

text \<open>
  The index loops of the source are written with \<open>take\<close>, \<open>drop\<close> and
  \<open>takeWhile\<close>: a forward scan from index \<open>i + 1\<close> that breaks at the first task
  not deeper than a given level is \<open>takeWhile\<close> over \<open>drop (i + 1)\<close>, and a backward
  scan from index \<open>i - 1\<close> is a search in the reversed prefix.
\<close>

fun scanDirectChild :: "int \<Rightarrow> Task list \<Rightarrow> bool" where
  "scanDirectChild taskLevel [] = False"
| "scanDirectChild taskLevel (nextTask # rest) =
     (if level nextTask \<le> taskLevel then False
      else if level nextTask = taskLevel + 1 \<and> \<not> isDeleted nextTask then True
      else scanDirectChild taskLevel rest)"

definition updateParentStatus :: "Task list \<Rightarrow> Task list" where
  "updateParentStatus tasks =
     map (\<lambda>task.
            let taskIndex = findIndex (\<lambda>t. id t = id task) tasks
            in if taskIndex = - 1 then task
               else task\<lparr>isParent := scanDirectChild (level task) (drop (nat taskIndex + 1) tasks)\<rparr>)
         tasks"

definition findAllChildTasks :: "Task list \<Rightarrow> Task \<Rightarrow> Task list" where
  "findAllChildTasks tasks task =
     (let taskIndex = findIndex (\<lambda>t. id t = id task) tasks
      in if taskIndex = - 1 then []
         else filter (\<lambda>t. \<not> isDeleted t)
                (takeWhile (\<lambda>t. \<not> level t \<le> level task) (drop (nat taskIndex + 1) tasks)))"

definition findSiblingTasks :: "Task list \<Rightarrow> Task \<Rightarrow> Task list" where
  "findSiblingTasks tasks task =
     (if level task = 0 then filter (\<lambda>t. level t = 0 \<and> \<not> isDeleted t) tasks
      else let taskIndex = findIndex (\<lambda>t. id t = id task) tasks
           in case find (\<lambda>t. level t = level task - 1) (rev (take (nat taskIndex) tasks)) of
                None \<Rightarrow> [task]
              | Some parentTask \<Rightarrow>
                  let start = findIndex (\<lambda>t. id t = id parentTask) tasks;
                      range = takeWhile (\<lambda>t. \<not> level t \<le> level parentTask)
                                (drop (nat (start + 1)) tasks);
                      siblings = filter (\<lambda>t. level t = level task) range
                  in filter (\<lambda>t. \<not> isDeleted t) siblings)"

subsection \<open>Renumbering after deletion\<close>

definition rewritePredecessor :: "Task list \<Rightarrow> int list \<Rightarrow> string \<Rightarrow> string" where
  "rewritePredecessor sortedTasks deletedSiNos idText =
     (case parseInt (trim idText) of
        None \<Rightarrow> []
      | Some predSiNo \<Rightarrow>
          if predSiNo \<in> set deletedSiNos then []
          else (case find (\<lambda>t. siNo t = predSiNo) sortedTasks of
                  None \<Rightarrow> []
                | Some predTask \<Rightarrow>
                    if isDeleted predTask then []
                    else let predIndex = findIndex (\<lambda>t. siNo t = predSiNo) sortedTasks;
                             deletedBefore = int (length (filter (\<lambda>s. s < predSiNo) deletedSiNos))
                         in String (predIndex + 1 - deletedBefore)))"

definition rewritePredecessors :: "Task list \<Rightarrow> int list \<Rightarrow> string \<Rightarrow> string option" where
  "rewritePredecessors sortedTasks deletedSiNos predIds =
     (let updatedPredecessors =
            joinWith '',''
              (filter (\<lambda>s. s \<noteq> [])
                 (map (rewritePredecessor sortedTasks deletedSiNos) (splitOn CHR '','' predIds)))
      in if updatedPredecessors = [] then None else Some updatedPredecessors)"

fun renumberFrom :: "Task list \<Rightarrow> int list \<Rightarrow> int \<Rightarrow> Task list \<Rightarrow> Task list" where
  "renumberFrom sortedTasks deletedSiNos nextSiNo [] = []"
| "renumberFrom sortedTasks deletedSiNos nextSiNo (task # rest) =
     (if isDeleted task \<or> siNo task \<in> set deletedSiNos
      then task # renumberFrom sortedTasks deletedSiNos nextSiNo rest
      else (let newTask = task\<lparr>siNo := nextSiNo\<rparr>;
                newTask' = (case predecessorIds newTask of
                              None \<Rightarrow> newTask
                            | Some p \<Rightarrow>
                                if p = [] then newTask
                                else newTask\<lparr>predecessorIds :=
                                       rewritePredecessors sortedTasks deletedSiNos p\<rparr>)
            in newTask' # renumberFrom sortedTasks deletedSiNos (nextSiNo + 1) rest))"

definition updateSiNumbersAfterDeletion :: "Task list \<Rightarrow> int list \<Rightarrow> Task list" where
  "updateSiNumbersAfterDeletion tasks deletedSiNos =
     (let sortedTasks = sort_key siNo tasks
      in renumberFrom sortedTasks deletedSiNos 1 sortedTasks)"

text \<open>
  The rewrite that deleting ordinal 2 out of the ordinals 1, 2, 3 is expected to make on a
  predecessor text: a reference to 1 stays, a reference to 3 becomes 2, every other
  reference is dropped, and a text left without references becomes \<open>null\<close>. An absent or
  empty text is not touched.
\<close>

definition expectedAfterDeleting2 :: "string option \<Rightarrow> string option" where
  "expectedAfterDeleting2 predIds =
     (case predIds of
        None \<Rightarrow> None
      | Some p \<Rightarrow>
          if p = [] then Some []
          else (let refs = concat (map (\<lambda>part. case parseInt (trim part) of
                                               None \<Rightarrow> []
                                             | Some n \<Rightarrow> if n = 1 then [''1'']
                                                         else if n = 3 then [''2''] else [])
                                    (splitOn CHR '','' p))
                in if refs = [] then None else Some (joinWith '','' refs)))"

subsection \<open>Moving a task among its siblings\<close>

text \<open>A \<open>Map\<close> keeps its keys in insertion order; setting a present key keeps its place.\<close>

fun mapSet :: "('k \<times> 'v) list \<Rightarrow> 'k \<Rightarrow> 'v \<Rightarrow> ('k \<times> 'v) list" where
  "mapSet [] k v = [(k, v)]"
| "mapSet ((k', v') # m) k v = (if k' = k then (k, v) # m else (k', v') # mapSet m k v)"

definition originalSiMapOf :: "Task list \<Rightarrow> (string \<times> int) list" where
  "originalSiMapOf tasks = foldl (\<lambda>m t. mapSet m (id t) (siNo t)) [] tasks"

definition remapPredecessor :: "Task list \<Rightarrow> (string \<times> int) list \<Rightarrow> string \<Rightarrow> string" where
  "remapPredecessor tasks originalSiMap siStr =
     (case parseInt (trim siStr) of
        None \<Rightarrow> siStr
      | Some n \<Rightarrow>
          (case find (\<lambda>(taskId, origSiNo). origSiNo = n) originalSiMap of
             None \<Rightarrow> siStr
           | Some (taskId, origSiNo) \<Rightarrow>
               (case find (\<lambda>t. id t = taskId) tasks of
                  None \<Rightarrow> siStr
                | Some newTask \<Rightarrow> String (siNo newTask))))"

definition updatePredecessorsAfterMove :: "Task list \<Rightarrow> (string \<times> int) list \<Rightarrow> Task list" where
  "updatePredecessorsAfterMove tasks originalSiMap =
     map (\<lambda>task. case predecessorIds task of
                    None \<Rightarrow> task
                  | Some p \<Rightarrow>
                      if p = [] then task
                      else task\<lparr>predecessorIds :=
                             Some (joinWith '',''
                                     (map (remapPredecessor tasks originalSiMap)
                                        (splitOn CHR '','' p)))\<rparr>)
         tasks"

definition renumberSequentially :: "Task list \<Rightarrow> Task list" where
  "renumberSequentially newTasks =
     map (\<lambda>(i, t). t\<lparr>siNo := int i + 1\<rparr>) (enumerate 0 newTasks)"

definition swapGroups :: "Task list \<Rightarrow> Task list \<Rightarrow> Task list \<Rightarrow> int \<Rightarrow> Task list" where
  "swapGroups tasks firstGroup secondGroup insertIndex =
     (let originalSiMap = originalSiMapOf tasks;
          rest = filter (\<lambda>t. id t \<notin> set (map id firstGroup) \<and> id t \<notin> set (map id secondGroup)) tasks;
          newTasks = take (nat insertIndex) rest @ firstGroup @ secondGroup @ drop (nat insertIndex) rest
      in updateWbsNumbers (updatePredecessorsAfterMove (renumberSequentially newTasks) originalSiMap))"

definition moveTaskUp :: "Task list \<Rightarrow> string \<Rightarrow> Task list" where
  "moveTaskUp tasks taskId =
     (let taskIndex = findIndex (\<lambda>t. id t = taskId \<and> \<not> isDeleted t) tasks
      in if taskIndex \<le> 0 then tasks
         else let task = tasks ! nat taskIndex;
                  siblings = findSiblingTasks tasks task;
                  siblingIndex = findIndex (\<lambda>s. id s = taskId) siblings
              in if siblingIndex \<le> 0 then tasks
                 else let previousSibling = siblings ! nat (siblingIndex - 1);
                          previousSiblingIndex = findIndex (\<lambda>t. id t = id previousSibling) tasks;
                          taskGroup = task # findAllChildTasks tasks task;
                          prevTaskGroup = previousSibling # findAllChildTasks tasks previousSibling
                      in swapGroups tasks taskGroup prevTaskGroup previousSiblingIndex)"

definition moveTaskDown :: "Task list \<Rightarrow> string \<Rightarrow> Task list" where
  "moveTaskDown tasks taskId =
     (let taskIndex = findIndex (\<lambda>t. id t = taskId \<and> \<not> isDeleted t) tasks
      in if taskIndex < 0 \<or> int (length tasks) - 1 \<le> taskIndex then tasks
         else let task = tasks ! nat taskIndex;
                  siblings = findSiblingTasks tasks task;
                  siblingIndex = findIndex (\<lambda>s. id s = taskId) siblings
              in if int (length siblings) - 1 \<le> siblingIndex then tasks
                 else let nextSibling = siblings ! nat (siblingIndex + 1);
                          taskGroup = task # findAllChildTasks tasks task;
                          nextTaskGroup = nextSibling # findAllChildTasks tasks nextSibling
                      in swapGroups tasks nextTaskGroup taskGroup taskIndex)"

section \<open>Aggregation from children to parents\<close>

definition startsWith :: "string \<Rightarrow> string \<Rightarrow> bool" where
  "startsWith s p = (take (length p) s = p)"

text \<open>\<open>isChildOf parentTask\<close> is the filter predicate of \<open>findDirectChildren\<close>.\<close>

definition isChildOf :: "Task \<Rightarrow> Task \<Rightarrow> bool" where
  "isChildOf parentTask t =
     (\<not> isDeleted t \<and> level t = level parentTask + 1
      \<and> startsWith (wbsNo t) (wbsNo parentTask @ ''.''))"

definition findDirectChildren :: "Task \<Rightarrow> Task list \<Rightarrow> Task list" where
  "findDirectChildren parentTask allTasks = filter (isChildOf parentTask) allTasks"

definition validDates :: "(Task \<Rightarrow> Date option) \<Rightarrow> Task list \<Rightarrow> Date list" where
  "validDates field children = map (\<lambda>c. the (field c)) (filter (\<lambda>c. field c \<noteq> None) children)"

definition minDate :: "Date list \<Rightarrow> Date option" where
  "minDate ds = (if ds \<noteq> [] then Some (Min (set ds)) else None)"

definition maxDate :: "Date list \<Rightarrow> Date option" where
  "maxDate ds = (if ds \<noteq> [] then Some (Max (set ds)) else None)"

definition derivedDates :: "(Date \<Rightarrow> bool) \<Rightarrow> Task list \<Rightarrow> Task \<Rightarrow> Task" where
  "derivedDates hol children parent =
     (let newStartDate = minDate (validDates startDate children);
          newEndDate = maxDate (validDates endDate children);
          newActualStartDate = minDate (validDates actualStartDate children);
          newActualEndDate = maxDate (validDates actualEndDate children)
      in parent\<lparr>startDate := newStartDate,
                endDate := newEndDate,
                duration := (if newStartDate \<noteq> None \<and> newEndDate \<noteq> None
                             then Some (calculateDuration hol (the newStartDate) (the newEndDate) True)
                             else duration parent),
                actualStartDate := newActualStartDate,
                actualEndDate := newActualEndDate,
                actualDuration := (if newActualStartDate \<noteq> None \<and> newActualEndDate \<noteq> None
                                   then Some (calculateDuration hol (the newActualStartDate)
                                                (the newActualEndDate) True)
                                   else actualDuration parent)\<rparr>)"

text \<open>
  One round of either aggregation loop: the direct children of \<open>task\<close> are read from the
  current list, and when there is one the entry with the task's identifier is replaced.
\<close>

definition aggregateStep :: "(Task list \<Rightarrow> Task \<Rightarrow> Task) \<Rightarrow> Task list \<Rightarrow> Task \<Rightarrow> Task list" where
  "aggregateStep derive updatedTasks task =
     (let children = filter (\<lambda>t. \<not> isDeleted t) (findDirectChildren task updatedTasks)
      in if children \<noteq> []
         then (let parentIndex = findIndex (\<lambda>t. id t = id task) updatedTasks
               in if parentIndex \<noteq> - 1
                  then updatedTasks[nat parentIndex := derive children (updatedTasks ! nat parentIndex)]
                  else updatedTasks)
         else updatedTasks)"

definition updateParentDates :: "(Date \<Rightarrow> bool) \<Rightarrow> Task list \<Rightarrow> Task list" where
  "updateParentDates hol tasks =
     (let tasksByLevel = sort_key (\<lambda>t. - level t) (filter (\<lambda>t. \<not> isDeleted t) tasks)
      in foldl (\<lambda>updatedTasks task.
                  if isParent task then aggregateStep (derivedDates hol) updatedTasks task
                  else updatedTasks)
           tasks tasksByLevel)"

text \<open>
  The progress of a parent: the sum of the children's values by \<open>reduce\<close> from 0, each
  value read as \<open>Number(child.progress) || 0\<close>, divided by the number of children,
  rounded to one decimal by \<open>Math.round(x * 10) / 10\<close>, \<open>NaN\<close> replaced by 0 and the
  result clamped to the range from 0 to 100. All of it is binary64 arithmetic.
\<close>

definition derivedProgress :: "Task list \<Rightarrow> Task \<Rightarrow> Task" where
  "derivedProgress children parent =
     (let totalProgress =
            foldl (\<lambda>sum child. addNumber sum (numberOrZero (progress child))) (Num 0) children;
          avgProgress =
            overPositive
              (mathRound (timesPositive (overPositive totalProgress (of_nat (length children))) 10))
              10;
          validProgress = (if avgProgress = NaN then Num 0
                           else mathMin (mathMax avgProgress (Num 0)) (Num 100))
      in parent\<lparr>progress := validProgress\<rparr>)"

definition updateParentProgress :: "Task list \<Rightarrow> Task list" where
  "updateParentProgress tasks =
     (let tasksByLevel = sort_key (\<lambda>t. - level t) (filter (\<lambda>t. \<not> isDeleted t \<and> isParent t) tasks)
      in foldl (aggregateStep derivedProgress) tasks tasksByLevel)"

text \<open>
  The fields by which the code decides which tasks are the direct children of which:
  neither aggregation writes them.
\<close>

definition shape :: "Task \<Rightarrow> string \<times> int \<times> string \<times> bool" where
  "shape t = (id t, level t, wbsNo t, isDeleted t)"

section \<open>Validation of predecessor references\<close>

fun ancestorsLoop :: "int \<Rightarrow> Task list \<Rightarrow> Task list" where
  "ancestorsLoop currentLevel [] = []"
| "ancestorsLoop currentLevel (potentialAncestor # rest) =
     (if level potentialAncestor < currentLevel
      then potentialAncestor #
             (if level potentialAncestor = 0 then []
              else ancestorsLoop (level potentialAncestor) rest)
      else ancestorsLoop currentLevel rest)"

definition findAncestors :: "Task list \<Rightarrow> Task \<Rightarrow> Task list" where
  "findAncestors tasks task =
     (if level task = 0 then []
      else let taskIndex = findIndex (\<lambda>t. id t = id task) tasks
           in if taskIndex = - 1 then []
              else ancestorsLoop (level task) (rev (take (nat taskIndex) tasks)))"

text \<open>
  The references \<open>hasCycle\<close> follows from an ordinal: those of the first non-deleted
  task with that ordinal, none when there is no such task or its text is unset, empty or
  the sentinel (the function then returns \<open>false\<close> before its loop).
\<close>

definition predecessorsOf :: "Task list \<Rightarrow> int \<Rightarrow> int list" where
  "predecessorsOf tasks currentSiNo =
     (case find (\<lambda>t. \<not> isDeleted t \<and> siNo t = currentSiNo) tasks of
        None \<Rightarrow> []
      | Some currentTask \<Rightarrow>
          (case predecessorIds currentTask of
             None \<Rightarrow> []
           | Some p \<Rightarrow> if p = [] \<or> p = ''0'' then [] else parseSiNos p))"

text \<open>
  \<open>hasCycle\<close> is recursive over the dependency edges and shares the set \<open>visited\<close>
  between all its calls; the model passes the set in and returns it with the answer.
  Every call receives its own copy of \<open>path\<close>. The recursion depth is bounded by the
  fuel: \<open>None\<close> is a search that did not finish within it.
\<close>

fun hasCycle ::
    "nat \<Rightarrow> Task list \<Rightarrow> int \<Rightarrow> int \<Rightarrow> int set \<Rightarrow> int set \<Rightarrow> (bool \<times> int set) option"
  and hasCycleAny ::
    "nat \<Rightarrow> Task list \<Rightarrow> int \<Rightarrow> int list \<Rightarrow> int set \<Rightarrow> int set \<Rightarrow> (bool \<times> int set) option"
  where
  "hasCycle 0 tasks taskSiNo currentSiNo path visited = None"
| "hasCycle (Suc fuel) tasks taskSiNo currentSiNo path visited =
     (if currentSiNo \<in> path then Some (True, visited)
      else if currentSiNo \<in> visited then Some (False, visited)
      else if currentSiNo = taskSiNo then Some (True, insert currentSiNo visited)
      else hasCycleAny fuel tasks taskSiNo (predecessorsOf tasks currentSiNo)
             (insert currentSiNo path) (insert currentSiNo visited))"
| "hasCycleAny fuel tasks taskSiNo [] path visited = Some (False, visited)"
| "hasCycleAny fuel tasks taskSiNo (predSiNo # rest) path visited =
     (case hasCycle fuel tasks taskSiNo predSiNo path visited of
        None \<Rightarrow> None
      | Some (found, visited') \<Rightarrow>
          if found then Some (True, visited')
          else hasCycleAny fuel tasks taskSiNo rest path visited')"

definition detectCircularDependency :: "nat \<Rightarrow> Task list \<Rightarrow> string \<Rightarrow> string \<Rightarrow> bool option" where
  "detectCircularDependency fuel tasks taskId predIds =
     (if trim predIds = [] \<or> predIds = ''0'' then Some False
      else (case find (\<lambda>t. id t = taskId) tasks of
              None \<Rightarrow> Some False
            | Some t \<Rightarrow>
                if siNo t = 0 then Some False
                else map_option fst
                       (hasCycleAny fuel tasks (siNo t) (parseSiNos predIds) {} {})))"

datatype ValidationError =
    InvalidSiNumbers "int list"
  | SelfDependency
  | CircularDependency
  | AncestorDependency "int list"

definition validatePredecessors ::
  "nat \<Rightarrow> Task \<Rightarrow> string \<Rightarrow> Task list \<Rightarrow> ValidationError list option" where
  "validatePredecessors fuel task predIds tasks =
     (if trim predIds = [] then Some []
      else let siNos = parseSiNos predIds;
               invalidSiNos = filter (\<lambda>n. find (\<lambda>t. \<not> isDeleted t \<and> siNo t = n) tasks = None) siNos;
               ancestorSiNos = map siNo (findAncestors tasks task);
               ancestorDependencies = filter (\<lambda>n. n \<in> set ancestorSiNos) siNos
           in map_option
                (\<lambda>circular.
                   (if invalidSiNos \<noteq> [] then [InvalidSiNumbers invalidSiNos] else [])
                   @ (if siNo task \<in> set siNos then [SelfDependency] else [])
                   @ (if circular then [CircularDependency] else [])
                   @ (if ancestorDependencies \<noteq> [] then [AncestorDependency ancestorDependencies] else []))
                (detectCircularDependency fuel tasks (id task) predIds))"

text \<open>
  The dependency graph the search walks, and what it looks for from a reference: a path to
  the ordinal of the task under validation, or into a cycle. \<open>searchBound\<close> bounds the
  number of ordinals the search can meet.
\<close>

definition dependsOn :: "Task list \<Rightarrow> int \<Rightarrow> int \<Rightarrow> bool" where
  "dependsOn tasks n m = (m \<in> set (predecessorsOf tasks n))"

definition closesCycle :: "Task list \<Rightarrow> int \<Rightarrow> int \<Rightarrow> bool" where
  "closesCycle tasks taskSiNo n =
     (\<exists>m. (dependsOn tasks)\<^sup>*\<^sup>* n m \<and> (m = taskSiNo \<or> (dependsOn tasks)\<^sup>+\<^sup>+ m m))"

definition taskRefs :: "Task \<Rightarrow> int list" where
  "taskRefs t = (case predecessorIds t of None \<Rightarrow> [] | Some p \<Rightarrow> parseSiNos p)"

definition searchBound :: "Task list \<Rightarrow> string \<Rightarrow> nat" where
  "searchBound tasks predIds = length (parseSiNos predIds) + length (concat (map taskRefs tasks))"

text \<open>
  What holds of the ordinals whose search has finished without a finding: the ordinal of
  the task is not among them, every reference from one of them leads to one of them, and
  none of them lies on a cycle.
\<close>

definition safeSet :: "Task list \<Rightarrow> int \<Rightarrow> int set \<Rightarrow> bool" where
  "safeSet ts target B =
     (target \<notin> B \<and> (\<forall>b \<in> B. \<forall>m. dependsOn ts b m \<longrightarrow> m \<in> B)
      \<and> (\<forall>b \<in> B. \<not> (dependsOn ts)\<^sup>+\<^sup>+ b b))"

section \<open>Store operations\<close>

text \<open>
  The operations of the task store, as functions from the task list to the new task list
  (the selection, the active task and the undo stacks are not modelled). An operation that
  returns early leaves the list as it is.
\<close>

definition markDeleted :: "Task list \<Rightarrow> Task \<Rightarrow> Task list" where
  "markDeleted newTasks childTask =
     (let childIndex = findIndex (\<lambda>t. id t = id childTask) newTasks
      in if childIndex \<noteq> - 1
         then newTasks[nat childIndex := (newTasks ! nat childIndex)\<lparr>isDeleted := True\<rparr>]
         else newTasks)"

definition deleteTask :: "(Date \<Rightarrow> bool) \<Rightarrow> Task list \<Rightarrow> string \<Rightarrow> Task list" where
  "deleteTask hol tasks taskId =
     (case find (\<lambda>t. id t = taskId) tasks of
        None \<Rightarrow> tasks
      | Some taskToDelete \<Rightarrow>
          let marked = markDeleted tasks taskToDelete;
              childTasks = findAllChildTasks marked taskToDelete;
              allMarked = foldl markDeleted marked childTasks;
              deletedSiNos = siNo taskToDelete # map siNo childTasks;
              renumbered = updateSiNumbersAfterDeletion allMarked deletedSiNos
          in updateWbsNumbers
               (updateParentProgress (updateParentDates hol (updateParentStatus renumbered))))"

definition moveUp :: "Task list \<Rightarrow> string \<Rightarrow> Task list" where
  "moveUp tasks taskId = updateParentStatus (moveTaskUp tasks taskId)"

definition moveDown :: "Task list \<Rightarrow> string \<Rightarrow> Task list" where
  "moveDown tasks taskId = updateParentStatus (moveTaskDown tasks taskId)"

subsection \<open>Inserting a task, loading a list, and the indent action\<close>

text \<open>
  \<open>addTaskAfter\<close> inserts a blank task behind the task with the given identifier, at
  that task's depth and with the next ordinal, and shifts the ordinals of the tasks behind
  it and the references to them. \<open>insertedTasks\<close> is the list it passes to the
  aggregation. The identifier of the new task (a fresh UUID in the code) is a parameter.
\<close>

definition shiftedReference :: "int \<Rightarrow> string \<Rightarrow> string" where
  "shiftedReference newSiNo idText =
     (case parseInt (trim idText) of
        None \<Rightarrow> idText
      | Some predSiNo \<Rightarrow> if newSiNo \<le> predSiNo then String (predSiNo + 1) else idText)"

definition shiftedTask :: "int \<Rightarrow> Task \<Rightarrow> Task" where
  "shiftedTask newSiNo task =
     task\<lparr>siNo := siNo task + 1,
          predecessorIds :=
            Some (case predecessorIds task of
                    None \<Rightarrow> ''0''
                  | Some p \<Rightarrow>
                      if p = [] then ''0''
                      else if p = ''0'' then ''0''
                      else joinWith '','' (map (shiftedReference newSiNo) (splitOn CHR '','' p)))\<rparr>"

definition insertedTasks :: "Task list \<Rightarrow> string \<Rightarrow> string \<Rightarrow> Task list" where
  "insertedTasks tasks afterTaskId newId =
     (let afterTaskIndex = nat (findIndex (\<lambda>t. id t = afterTaskId) tasks);
          afterTask = tasks ! afterTaskIndex;
          newSiNo = siNo afterTask + 1;
          newTask = blankTask newId newSiNo (level afterTask);
          updatedTasksAfter = map (shiftedTask newSiNo) (drop (afterTaskIndex + 1) tasks)
      in take (afterTaskIndex + 1) tasks @ [newTask] @ updatedTasksAfter)"

definition addTaskAfter :: "(Date \<Rightarrow> bool) \<Rightarrow> Task list \<Rightarrow> string \<Rightarrow> string \<Rightarrow> Task list" where
  "addTaskAfter hol tasks afterTaskId newId =
     (if findIndex (\<lambda>t. id t = afterTaskId) tasks = - 1 then tasks
      else updateWbsNumbers
             (updateParentProgress
                (updateParentDates hol (updateParentStatus (insertedTasks tasks afterTaskId newId)))))"

text \<open>
  \<open>setTasks\<close> fills in defaults (of the modelled fields: the actual duration and the
  sentinel for an empty predecessor text; \<open>progress\<close> is never \<open>null\<close> in the model) and
  runs the aggregation. The indent action of the table (\<open>handleDemote\<close>) passes the result
  of \<open>updateTaskLevelsForIndent\<close> to \<open>setTasks\<close>; when nothing visible is selected or the
  indent throws, the list stays as it is (here: the error is returned).
\<close>

definition withDefaults :: "(Date \<Rightarrow> bool) \<Rightarrow> Task \<Rightarrow> Task" where
  "withDefaults hol task =
     task\<lparr>actualDuration :=
            (case actualDuration task of
               Some d \<Rightarrow> Some d
             | None \<Rightarrow>
                 if actualStartDate task \<noteq> None \<and> actualEndDate task \<noteq> None
                 then Some (calculateDuration hol (the (actualStartDate task))
                              (the (actualEndDate task)) True)
                 else None),
          predecessorIds :=
            (if predecessorIds task = Some [] then Some ''0'' else predecessorIds task)\<rparr>"

definition setTasks :: "(Date \<Rightarrow> bool) \<Rightarrow> Task list \<Rightarrow> Task list" where
  "setTasks hol tasks =
     updateWbsNumbers
       (updateParentProgress
          (updateParentDates hol (updateParentStatus (map (withDefaults hol) tasks))))"

definition handleDemote ::
  "(Date \<Rightarrow> bool) \<Rightarrow> Task list \<Rightarrow> string set \<Rightarrow> StructuralError + Task list" where
  "handleDemote hol tasks selectedIds =
     (if filter (\<lambda>t. id t \<in> selectedIds) (filter (\<lambda>t. \<not> isDeleted t) tasks) = [] then Inr tasks
      else (case updateTaskLevelsForIndent tasks selectedIds of
              Inl e \<Rightarrow> Inl e
            | Inr updatedTasks \<Rightarrow> Inr (setTasks hol updatedTasks)))"

subsection \<open>Field updates and their propagation to dependents\<close>

text \<open>
  A \<open>TaskUpdate\<close> is a partial task: every field may be absent (\<open>None\<close>), and a
  present nullable field carries its own option.
\<close>

record TaskUpdate =
  u_id :: "string option"
  u_siNo :: "int option"
  u_wbsNo :: "string option"
  u_predecessorIds :: "string option option"
  u_level :: "int option"
  u_startDate :: "Date option option"
  u_endDate :: "Date option option"
  u_duration :: "int option option"
  u_actualStartDate :: "Date option option"
  u_actualEndDate :: "Date option option"
  u_actualDuration :: "int option option"
  u_progress :: "number option"
  u_isDeleted :: "bool option"
  u_isParent :: "bool option"

definition emptyUpdate :: TaskUpdate where
  "emptyUpdate =
     \<lparr>u_id = None, u_siNo = None, u_wbsNo = None, u_predecessorIds = None, u_level = None,
      u_startDate = None, u_endDate = None, u_duration = None,
      u_actualStartDate = None, u_actualEndDate = None, u_actualDuration = None,
      u_progress = None, u_isDeleted = None, u_isParent = None\<rparr>"

definition orElse :: "'a option \<Rightarrow> 'a \<Rightarrow> 'a" where
  "orElse v d = (case v of None \<Rightarrow> d | Some x \<Rightarrow> x)"

text \<open>The object spread \<open>{ ...task, ...update }\<close>.\<close>

definition applyUpdate :: "Task \<Rightarrow> TaskUpdate \<Rightarrow> Task" where
  "applyUpdate task u =
     \<lparr>id = orElse (u_id u) (id task),
      siNo = orElse (u_siNo u) (siNo task),
      wbsNo = orElse (u_wbsNo u) (wbsNo task),
      predecessorIds = orElse (u_predecessorIds u) (predecessorIds task),
      level = orElse (u_level u) (level task),
      startDate = orElse (u_startDate u) (startDate task),
      endDate = orElse (u_endDate u) (endDate task),
      duration = orElse (u_duration u) (duration task),
      actualStartDate = orElse (u_actualStartDate u) (actualStartDate task),
      actualEndDate = orElse (u_actualEndDate u) (actualEndDate task),
      actualDuration = orElse (u_actualDuration u) (actualDuration task),
      progress = orElse (u_progress u) (progress task),
      isDeleted = orElse (u_isDeleted u) (isDeleted task),
      isParent = orElse (u_isParent u) (isParent task)\<rparr>"

text \<open>
  Truthiness of the fields of an update: present, not \<open>null\<close>, and for a number neither
  zero nor \<open>NaN\<close>.
\<close>

definition truthyDate :: "Date option option \<Rightarrow> bool" where
  "truthyDate v = (case v of Some (Some d) \<Rightarrow> True | _ \<Rightarrow> False)"

definition truthyProgress :: "number option \<Rightarrow> bool" where
  "truthyProgress v = (case v of Some p \<Rightarrow> p \<noteq> Num 0 \<and> p \<noteq> NaN | None \<Rightarrow> False)"

definition processUpdate :: "(Date \<Rightarrow> bool) \<Rightarrow> Task \<Rightarrow> TaskUpdate \<Rightarrow> TaskUpdate" where
  "processUpdate hol task update =
     (let p1 = (if u_predecessorIds update = Some (Some []) then update\<lparr>u_predecessorIds := Some (Some ''0'')\<rparr>
                else update);
          p2 = (if truthyDate (u_actualEndDate update) \<and> \<not> truthyProgress (u_progress update)
                then p1\<lparr>u_progress := Some (Num 100)\<rparr> else p1);
          p3 = (if truthyDate (u_actualStartDate update) \<and> progress task = Num 0
                   \<and> \<not> truthyProgress (u_progress update)
                then p2\<lparr>u_progress := Some (Num 50)\<rparr> else p2);
          start = (if truthyDate (u_actualStartDate update) then the (u_actualStartDate update)
                   else actualStartDate task);
          end = (if truthyDate (u_actualEndDate update) then the (u_actualEndDate update)
                 else actualEndDate task)
      in if start \<noteq> None \<and> end \<noteq> None
         then p3\<lparr>u_actualDuration := Some (Some (calculateDuration hol (the start) (the end) True))\<rparr>
         else p3)"

text \<open>
  \<open>updateDependentTasks\<close> works on an array of object references, and
  \<open>adjustTaskDatesWithPredecessors\<close> assigns to the object it is given, which an outer
  round may still hold after the array slot has been replaced. The state is therefore a
  store of objects (\<open>objs\<close>, addressed by position), the array as a list of addresses
  (\<open>slots\<close>) and the set of processed identifiers. \<open>adjustMutation\<close> is the object after
  the call, \<open>adjustDates\<close> of it the returned copy. The recursion depth is bounded by
  the fuel.
\<close>

record DepState =
  objs :: "Task list"
  slots :: "nat list"
  processed :: "string set"

definition updatedTasksOf :: "DepState \<Rightarrow> Task list" where
  "updatedTasksOf st = map (\<lambda>a. objs st ! a) (slots st)"

definition adjustMutation :: "(Date \<Rightarrow> bool) \<Rightarrow> Task \<Rightarrow> Task list \<Rightarrow> Task option" where
  "adjustMutation hol task allTasks =
     (if noPredecessors task then Some task else adjustInPlace hol task allTasks)"

definition dependsOnSiNo :: "int \<Rightarrow> Task \<Rightarrow> bool" where
  "dependsOnSiNo sn t =
     (\<not> isDeleted t \<and> (case predecessorIds t of None \<Rightarrow> False | Some p \<Rightarrow> sn \<in> set (parseSiNos p)))"

fun updateDependents :: "nat \<Rightarrow> (Date \<Rightarrow> bool) \<Rightarrow> string \<Rightarrow> DepState \<Rightarrow> DepState option"
  and updateDependentsLoop :: "nat \<Rightarrow> (Date \<Rightarrow> bool) \<Rightarrow> nat list \<Rightarrow> DepState \<Rightarrow> DepState option"
  where
  "updateDependents 0 hol taskId st = None"
| "updateDependents (Suc fuel) hol taskId st =
     (if taskId \<in> processed st then Some st
      else (let st1 = st\<lparr>processed := insert taskId (processed st)\<rparr>;
                sn = (case find (\<lambda>ut. id ut = taskId) (updatedTasksOf st1) of
                        None \<Rightarrow> - 1
                      | Some ut \<Rightarrow> if siNo ut = 0 then - 1 else siNo ut);
                dependentTasks = filter (\<lambda>a. dependsOnSiNo sn (objs st1 ! a)) (slots st1)
            in updateDependentsLoop fuel hol dependentTasks st1))"
| "updateDependentsLoop fuel hol [] st = Some st"
| "updateDependentsLoop fuel hol (a # rest) st =
     (let dependent = objs st ! a;
          idx = findIndex (\<lambda>t. id t = id dependent) (updatedTasksOf st)
      in if idx = - 1 then updateDependentsLoop fuel hol rest st
         else (case adjustMutation hol dependent (updatedTasksOf st) of
                 None \<Rightarrow> None
               | Some mutated \<Rightarrow>
                   (case adjustDates hol mutated of
                      None \<Rightarrow> None
                    | Some adjustedTask \<Rightarrow>
                        (let st' = st\<lparr>objs := (objs st)[a := mutated] @ [adjustedTask],
                                      slots := (slots st)[nat idx := length (objs st)]\<rparr>
                         in if startDate dependent \<noteq> startDate adjustedTask
                               \<or> endDate dependent \<noteq> endDate adjustedTask
                            then (case updateDependents fuel hol (id dependent) st' of
                                    None \<Rightarrow> None
                                  | Some st'' \<Rightarrow> updateDependentsLoop fuel hol rest st'')
                            else updateDependentsLoop fuel hol rest st'))))"

definition updateDependentTasks ::
  "nat \<Rightarrow> (Date \<Rightarrow> bool) \<Rightarrow> Task list \<Rightarrow> Task \<Rightarrow> Task list option" where
  "updateDependentTasks fuel hol tasks updatedTask =
     (let taskIdx = findIndex (\<lambda>t. id t = id updatedTask) tasks
      in if taskIdx = - 1 then Some tasks
         else map_option updatedTasksOf
                (updateDependents fuel hol (id updatedTask)
                   \<lparr>objs = tasks @ [updatedTask],
                    slots = [0..<length tasks][nat taskIdx := length tasks],
                    processed = {}\<rparr>))"

definition recompute :: "(Date \<Rightarrow> bool) \<Rightarrow> Task list \<Rightarrow> Task list" where
  "recompute hol newTasks =
     updateWbsNumbers (updateParentProgress (updateParentDates hol (updateParentStatus newTasks)))"

definition filterParentUpdate :: "TaskUpdate \<Rightarrow> TaskUpdate" where
  "filterParentUpdate update =
     update\<lparr>u_startDate := None, u_endDate := None, u_duration := None, u_progress := None,
            u_actualStartDate := None, u_actualEndDate := None, u_actualDuration := None\<rparr>"

definition updateTask ::
  "nat \<Rightarrow> (Date \<Rightarrow> bool) \<Rightarrow> Task list \<Rightarrow> string \<Rightarrow> TaskUpdate \<Rightarrow> Task list option" where
  "updateTask fuel hol tasks taskId update =
     (let taskIndex = findIndex (\<lambda>t. id t = taskId) tasks
      in if taskIndex = - 1 then Some tasks
         else let task = tasks ! nat taskIndex
              in if isParent task
                 then (let filteredUpdate = filterParentUpdate update
                       in if filteredUpdate = emptyUpdate then Some tasks
                          else Some (recompute hol (tasks[nat taskIndex := applyUpdate task filteredUpdate])))
                 else (let updatedTask = applyUpdate task (processUpdate hol task update)
                       in map_option (recompute hol)
                            (updateDependentTasks fuel hol tasks updatedTask)))"

text \<open>
  A task record with a set actual end date and progress 100, and a task without a direct
  child at position \<open>i\<close> of a list.
\<close>

definition finished :: "Task \<Rightarrow> bool" where
  "finished t = (progress t = Num 100 \<and> actualEndDate t \<noteq> None)"

definition leafAt :: "Task list \<Rightarrow> nat \<Rightarrow> bool" where
  "leafAt tasks i = (\<not> scanDirectChild (level (tasks ! i)) (drop (i + 1) tasks))"

text \<open>
  What the propagation to dependents keeps: the identifier, depth and tombstone flag at
  every array position (\<open>frame3\<close>), and, of every object but the replaced one at
  address \<open>old\<close>, that it carries one of these triples and is finished when it has the
  identifier \<open>tid\<close> of the updated task.
\<close>

definition frame3 :: "Task \<Rightarrow> string \<times> int \<times> bool" where
  "frame3 t = (id t, level t, isDeleted t)"

definition depInv :: "(string \<times> int \<times> bool) list \<Rightarrow> string \<Rightarrow> nat \<Rightarrow> DepState \<Rightarrow> bool" where
  "depInv sh tid old st =
     (old < length (objs st)
      \<and> (\<forall>a \<in> set (slots st). a < length (objs st) \<and> a \<noteq> old)
      \<and> map frame3 (updatedTasksOf st) = sh
      \<and> (\<forall>a < length (objs st). a \<noteq> old \<longrightarrow>
             frame3 (objs st ! a) \<in> set sh
             \<and> (id (objs st ! a) = tid \<longrightarrow> finished (objs st ! a)))
      \<and> processed st \<subseteq> fst ` set sh)"

text \<open>The ordinals of the non-deleted tasks, in list order.\<close>

definition liveOrdinals :: "Task list \<Rightarrow> int list" where
  "liveOrdinals tasks = map siNo (filter (\<lambda>t. \<not> isDeleted t) tasks)"

definition threeTasks :: "Task list" where
  "threeTasks = [blankTask ''a'' 1 0, blankTask ''b'' 2 0, blankTask ''c'' 3 0]"

text \<open>A parent with two children whose progress values are 40 and 80, for examples.\<close>

definition familyTasks :: "Task list" where
  "familyTasks =
     [(blankTask ''p'' 1 0)\<lparr>isParent := True\<rparr>,
      (blankTask ''x'' 2 1)\<lparr>wbsNo := ''1.1'', progress := Num 40,
                             startDate := Some 0, endDate := Some 86400000\<rparr>,
      (blankTask ''y'' 3 1)\<lparr>wbsNo := ''1.2'', progress := Num 80,
                             startDate := Some 172800000, endDate := Some 345600000\<rparr>]"

text \<open>A root task followed by three tasks of depth 1, for examples.\<close>

definition fourTasks :: "Task list" where
  "fourTasks = [blankTask ''a'' 1 0, blankTask ''b'' 2 1, blankTask ''c'' 3 1, blankTask ''d'' 4 1]"

section \<open>The hierarchy by depth and position\<close>

text \<open>
  The specification derives the hierarchy from the order and the depths alone and leaves
  tombstones out of every derived computation: the parent of a task is the nearest
  preceding task one level up, and the direct children of a task are the tasks one level
  down that follow it before the next task that is not deeper than it. These two
  definitions follow those words; they are not taken from the code.
\<close>

definition parentByDepth :: "Task list \<Rightarrow> nat \<Rightarrow> Task option" where
  "parentByDepth tasks i =
     find (\<lambda>t. level t = level (tasks ! i) - 1)
       (rev (filter (\<lambda>t. \<not> isDeleted t) (take i tasks)))"

definition childrenByDepth :: "Task list \<Rightarrow> nat \<Rightarrow> Task list" where
  "childrenByDepth tasks i =
     filter (\<lambda>t. level t = level (tasks ! i) + 1)
       (takeWhile (\<lambda>t. level (tasks ! i) < level t)
          (filter (\<lambda>t. \<not> isDeleted t) (drop (i + 1) tasks)))"

text \<open>
  A parent and its one child in a consistent state, for examples: the dates and the
  progress of the parent are those of the child, and the labels are current.
\<close>

definition parentAndChild :: "Task list" where
  "parentAndChild =
     [(blankTask ''p'' 1 0)\<lparr>isParent := True, progress := Num 40, startDate := Some 0,
                            endDate := Some 86400000, duration := Some 2\<rparr>,
      (blankTask ''x'' 2 1)\<lparr>wbsNo := ''1.1'', progress := Num 40, startDate := Some 0,
                            endDate := Some 86400000, duration := Some 2\<rparr>]"

section \<open>Properties of the date arithmetic\<close>

lemma addDays_add: "addDays (addDays d a) b = addDays d (a + b)"
  by (simp add: addDays_def algebra_simps)

lemma addDays_0: "addDays d 0 = d"
  by (simp add: addDays_def)

lemma countWorking_last:
  "\<not> hol (addDays s (int k)) \<Longrightarrow> 1 \<le> countWorking hol s (Suc k)"
proof (induction k arbitrary: s)
  case 0
  then show ?case by (simp add: addDays_0)
next
  case (Suc k)
  have "addDays (addDays s 1) (int k) = addDays s (int (Suc k))"
    by (simp add: addDays_add)
  with Suc.prems have "\<not> hol (addDays (addDays s 1) (int k))" by simp
  from Suc.IH [OF this] show ?case by simp
qed

lemma endDateLoop_steps:
  "a + int (countWorking hol (addDays r 1) k) = n \<Longrightarrow>
   (0 < k \<longrightarrow> \<not> hol (addDays r (int k))) \<Longrightarrow>
   endDateLoop hol r n a = Some (addDays r (int k))"
proof (induction k arbitrary: r a)
  case 0
  then show ?case by (subst endDateLoop.simps) (simp add: addDays_0)
next
  case (Suc k)
  let ?r = "addDays r 1"
  have last: "addDays ?r (int k) = addDays r (int (Suc k))"
    by (simp add: addDays_add)
  from Suc.prems(2) have nh: "\<not> hol (addDays ?r (int k))"
    by (simp add: last)
  from countWorking_last [of hol ?r k] nh Suc.prems(1) have lt: "a < n" by simp
  have later: "0 < k \<longrightarrow> \<not> hol (addDays ?r (int k))" using nh by simp
  show ?case
  proof (cases "hol ?r")
    case True
    with Suc.prems(1) have "a + int (countWorking hol (addDays ?r 1) k) = n" by simp
    from Suc.IH [OF this later] lt True show ?thesis
      by (subst endDateLoop.simps) (simp add: last)
  next
    case False
    with Suc.prems(1) have "(a + 1) + int (countWorking hol (addDays ?r 1) k) = n" by simp
    from Suc.IH [OF this later] lt False show ?thesis
      by (subst endDateLoop.simps) (simp add: last)
  qed
qed

lemma countWorking_append:
  "countWorking hol s (j + k) = countWorking hol s j + countWorking hol (addDays s (int j)) k"
proof (induction j arbitrary: s)
  case 0
  then show ?case by (simp add: addDays_0)
next
  case (Suc j)
  have "addDays (addDays s 1) (int j) = addDays s (int (Suc j))"
    by (simp add: addDays_add)
  with Suc.IH [of "addDays s 1"] show ?case by simp
qed

lemma countWorking_holidays:
  "(\<forall>i<k. hol (addDays s (int i))) \<Longrightarrow> countWorking hol s k = 0"
proof (induction k arbitrary: s)
  case 0
  then show ?case by simp
next
  case (Suc k)
  have "\<forall>i<k. hol (addDays (addDays s 1) (int i))"
  proof (intro allI impI)
    fix i assume "i < k"
    then have "hol (addDays s (int (Suc i)))" using Suc.prems by blast
    then show "hol (addDays (addDays s 1) (int i))" by (simp add: addDays_add)
  qed
  from Suc.IH [OF this] Suc.prems show ?case
    using addDays_0 [of s] by (metis add.right_neutral countWorking.simps(2) of_nat_0 zero_less_Suc)
qed

lemma nextWorkingDay_exists:
  assumes "workingDaysUnbounded hol"
  shows "\<exists>k. countWorking hol (addDays r 1) k = m \<and> (0 < m \<longrightarrow> 0 < k \<and> \<not> hol (addDays r (int k)))"
proof (induction m)
  case 0
  show ?case by (rule exI [of _ 0]) simp
next
  case (Suc m)
  then obtain k where k: "countWorking hol (addDays r 1) k = m"
    by (elim exE conjE)
  let ?d = "addDays r (int k)"
  from assms obtain j0 where "0 < j0 \<and> \<not> hol (addDays ?d (int j0))"
    unfolding workingDaysUnbounded_def by blast
  then have ex: "\<exists>j. 0 < j \<and> \<not> hol (addDays ?d (int j))" by blast
  define j where "j = (LEAST j. 0 < j \<and> \<not> hol (addDays ?d (int j)))"
  from LeastI_ex [OF ex] have j: "0 < j" "\<not> hol (addDays ?d (int j))"
    unfolding j_def by blast+
  have least: "\<And>i. 0 < i \<Longrightarrow> i < j \<Longrightarrow> hol (addDays ?d (int i))"
    using not_less_Least [of _ "\<lambda>j. 0 < j \<and> \<not> hol (addDays ?d (int j))"]
    unfolding j_def by blast
  obtain j' where j': "j = Suc j'" using j(1) by (cases j) auto
  have hols: "\<forall>i<j'. hol (addDays (addDays ?d 1) (int i))"
  proof (intro allI impI)
    fix i assume "i < j'"
    then have "hol (addDays ?d (int (Suc i)))" using least [of "Suc i"] j' by simp
    then show "hol (addDays (addDays ?d 1) (int i))" by (simp add: addDays_add add.assoc)
  qed
  have split: "countWorking hol (addDays r 1) (k + j)
      = countWorking hol (addDays r 1) k + countWorking hol (addDays (addDays r 1) (int k)) j"
    by (rule countWorking_append)
  have eq1: "addDays (addDays r 1) (int k) = addDays ?d 1"
    by (simp add: addDays_def algebra_simps)
  have "countWorking hol (addDays ?d 1) (j' + 1)
      = countWorking hol (addDays ?d 1) j' + countWorking hol (addDays (addDays ?d 1) (int j')) 1"
    by (rule countWorking_append)
  moreover have "addDays (addDays ?d 1) (int j') = addDays ?d (int j)"
    by (simp add: addDays_def algebra_simps j')
  ultimately have "countWorking hol (addDays ?d 1) j = 1"
    using countWorking_holidays [OF hols] j(2) j' by simp
  with split eq1 k have "countWorking hol (addDays r 1) (k + j) = Suc m" by simp
  moreover have "addDays r (int (k + j)) = addDays ?d (int j)"
    by (simp add: addDays_def algebra_simps)
  ultimately show ?case using j by (intro exI [of _ "k + j"]) simp
qed

lemma durationLoop_count:
  "durationLoop hol s (addDays s (int k)) c = c + int (countWorking hol s (Suc k))"
proof (induction k arbitrary: s c)
  case 0
  have "\<not> addDays s 1 \<le> s" by (simp add: addDays_def msPerDay_def)
  then show ?case
    by (subst durationLoop.simps, subst durationLoop.simps) (simp add: addDays_0)
next
  case (Suc k)
  have le: "s \<le> addDays s (int (Suc k))" by (simp add: addDays_def msPerDay_def)
  have eq: "addDays s (int (Suc k)) = addDays (addDays s 1) (int k)"
    by (simp add: addDays_add)
  have "durationLoop hol s (addDays s (int (Suc k))) c
      = durationLoop hol (addDays s 1) (addDays (addDays s 1) (int k))
          (if \<not> hol s then c + 1 else c)"
    using le by (subst durationLoop.simps) (simp only: eq if_True)
  also have "\<dots> = (if \<not> hol s then c + 1 else c) + int (countWorking hol (addDays s 1) (Suc k))"
    by (rule Suc.IH)
  also have "\<dots> = c + int (countWorking hol s (Suc (Suc k)))"
    by simp
  finally show ?case .
qed

lemma not_sameDay_later: "0 < k \<Longrightarrow> \<not> sameDay s (addDays s (int k))"
  by (simp add: sameDay_def addDays_def msPerDay_def)

lemma roundtrip_general:
  assumes "workingDaysUnbounded hol" and "1 \<le> d"
  shows "\<exists>e. calculateEndDate hol s d True = Some e \<and>
             calculateDuration hol s e True = (if d = 1 \<or> \<not> hol s then d else d - 1)"
proof (cases "d = 1")
  case True
  then show ?thesis by (simp add: calculateEndDate_def calculateDuration_def sameDay_def)
next
  case False
  with assms(2) have pos: "0 < nat (d - 1)" by simp
  from nextWorkingDay_exists [OF assms(1), of s "nat (d - 1)"] pos
  obtain k where k: "countWorking hol (addDays s 1) k = nat (d - 1)"
    and kpos: "0 < k" and nh: "\<not> hol (addDays s (int k))" by blast
  have "0 + int (countWorking hol (addDays s 1) k) = d - 1" using k assms(2) by simp
  from endDateLoop_steps [OF this] nh
  have e: "endDateLoop hol s (d - 1) 0 = Some (addDays s (int k))" by simp
  have "durationLoop hol s (addDays s (int k)) 0 = int (countWorking hol s (Suc k))"
    using durationLoop_count [of hol s k 0] by simp
  also have "\<dots> = (if \<not> hol s then 1 else 0) + (d - 1)" using k assms(2) by simp
  finally show ?thesis using False e not_sameDay_later [OF kpos]
    by (simp add: calculateEndDate_def calculateDuration_def)
qed

lemma calculateEndDate_total:
  assumes "workingDaysUnbounded hol"
  shows "\<exists>e. calculateEndDate hol s d True = Some e"
proof (cases "1 \<le> d")
  case True
  from roundtrip_general [OF assms True, of s] show ?thesis by blast
next
  case False
  then have "\<not> 0 < d - 1" by simp
  then have "endDateLoop hol s (d - 1) 0 = Some s"
    by (subst endDateLoop.simps) simp
  with False show ?thesis by (simp add: calculateEndDate_def)
qed

lemma adjustPlanned_Some:
  assumes "workingDaysUnbounded hol"
  shows "\<exists>t'. adjustPlanned hol t = Some t' \<and> startDate t' = startDate t
           \<and> progress t' = progress t \<and> actualStartDate t' = actualStartDate t
           \<and> actualEndDate t' = actualEndDate t \<and> actualDuration t' = actualDuration t
           \<and> (truthyNum (duration t) \<longrightarrow> duration t' = duration t)
           \<and> (startDate t \<noteq> None \<and> truthyNum (duration t) \<longrightarrow>
                endDate t' = calculateEndDate hol (the (startDate t)) (the (duration t)) True)"
proof (cases "startDate t")
  case None
  then show ?thesis by (simp add: adjustPlanned_def)
next
  case (Some s)
  obtain e where e: "calculateEndDate hol s (the (duration t)) True = Some e"
    using calculateEndDate_total [OF assms] by blast
  show ?thesis using Some e by (auto simp: adjustPlanned_def)
qed

lemma adjustActual_Some:
  assumes "workingDaysUnbounded hol"
  shows "\<exists>t'. adjustActual hol t = Some t' \<and> startDate t' = startDate t
           \<and> endDate t' = endDate t \<and> duration t' = duration t \<and> progress t' = progress t"
proof (cases "actualStartDate t")
  case None
  then show ?thesis by (simp add: adjustActual_def)
next
  case (Some s)
  obtain e where e: "calculateEndDate hol s (the (actualDuration t)) True = Some e"
    using calculateEndDate_total [OF assms] by blast
  show ?thesis using Some e by (auto simp: adjustActual_def)
qed

lemma adjustDates_Some:
  assumes "workingDaysUnbounded hol"
  shows "\<exists>t'. adjustDates hol t = Some t' \<and> startDate t' = startDate t
           \<and> progress t' = progress t
           \<and> (truthyNum (duration t) \<longrightarrow> duration t' = duration t)
           \<and> (startDate t \<noteq> None \<and> truthyNum (duration t) \<longrightarrow>
                endDate t' = calculateEndDate hol (the (startDate t)) (the (duration t)) True)"
proof -
  from adjustPlanned_Some [OF assms, of t] obtain t1 where
    t1: "adjustPlanned hol t = Some t1" "startDate t1 = startDate t" "progress t1 = progress t"
      "truthyNum (duration t) \<longrightarrow> duration t1 = duration t"
      "startDate t \<noteq> None \<and> truthyNum (duration t) \<longrightarrow>
         endDate t1 = calculateEndDate hol (the (startDate t)) (the (duration t)) True"
    by blast
  from adjustActual_Some [OF assms, of t1] obtain t2 where
    t2: "adjustActual hol t1 = Some t2" "startDate t2 = startDate t1" "endDate t2 = endDate t1"
      "duration t2 = duration t1" "progress t2 = progress t1"
    by blast
  show ?thesis using t1 t2 by (simp add: adjustDates_def)
qed

lemma pushStart_Some:
  assumes "workingDaysUnbounded hol"
  shows "\<exists>t1. pushStart hol task m = Some t1
     \<and> actualStartDate t1 = actualStartDate task \<and> actualEndDate t1 = actualEndDate task
     \<and> (if startDate task = None \<or> the (startDate task) \<le> m
         then startDate t1 = Some (addDays m 1)
            \<and> (if duration task \<noteq> None \<and> 0 < the (duration task)
                then duration t1 = duration task
                else if endDate task \<noteq> None
                then duration t1 = Some (max 1 (ceilDays (the (endDate task) - addDays m 1) + 1))
                else duration t1 = Some 1 \<and> endDate t1 = Some (addDays m 1))
         else t1 = task)"
proof -
  obtain e where e: "calculateEndDate hol (addDays m 1) (the (duration task)) True = Some e"
    using calculateEndDate_total [OF assms] by blast
  show ?thesis using e by (auto simp: pushStart_def Let_def)
qed

lemma sundaysOff_unbounded: "workingDaysUnbounded sundaysOff"
  unfolding workingDaysUnbounded_def
proof
  fix d
  have div: "\<And>k. addDays d (int k) div msPerDay = d div msPerDay + int k"
    by (simp add: addDays_def msPerDay_def)
  show "\<exists>k>0. \<not> sundaysOff (addDays d (int k))"
  proof (cases "(d div msPerDay + 1) mod 7 = 3")
    case True
    have "\<And>x::int. (x + 1) mod 7 = 3 \<Longrightarrow> (x + 2) mod 7 \<noteq> 3" by presburger
    from this [OF True] have "(d div msPerDay + 2) mod 7 \<noteq> 3" .
    then have "\<not> sundaysOff (addDays d (int 2))"
      unfolding sundaysOff_def div by simp
    then show ?thesis by (intro exI [of _ 2]) simp
  next
    case False
    then have "\<not> sundaysOff (addDays d (int 1))"
      unfolding sundaysOff_def div by simp
    then show ?thesis by (intro exI [of _ 1]) simp
  qed
qed


section \<open>Claim C1: the date round trip\<close>

text \<open>
  \<open>roundtrip_general\<close> above gives the exact value of the round trip: the duration
  computed back from the end date is \<open>d\<close> when \<open>d = 1\<close> or the start is a working
  day, and \<open>d - 1\<close> when the start is a holiday, because \<open>calculateEndDate\<close> counts
  the start date as day 1 whatever it is and the loop of \<open>calculateDuration\<close> counts it
  only when it is a working day.
\<close>

text \<open>
  Claim C1, evaluated where it breaks. With Sundays excluded, a start on Sunday 1970-01-04
  and duration 2 give Monday 1970-01-05 as end date, and the duration computed back from
  that start and end is 1, not 2.
\<close>

theorem roundtrip_breaks_on_holiday_start:
  "sundaysOff 259200000 \<and>
   calculateEndDate sundaysOff 259200000 2 True = Some 345600000 \<and>
   calculateDuration sundaysOff 259200000 345600000 True = 1"
  by (simp add: calculateEndDate_def endDateLoop.simps calculateDuration_def sameDay_def
      durationLoop.simps addDays_def msPerDay_def sundaysOff_def)

section \<open>Claims C2 and C9: the predecessor rule\<close>

lemma getMaxPredecessorEndDate_Max:
  assumes "trim p \<noteq> []"
    and "ends = [the (endDate t). t \<leftarrow> allTasks,
                  \<not> isDeleted t \<and> siNo t \<in> set (parseSiNos p) \<and> endDate t \<noteq> None]"
    and "ends \<noteq> []"
  shows "getMaxPredecessorEndDate allTasks p = Some (Max (set ends))"
proof -
  let ?preds = "filter (\<lambda>t. \<not> isDeleted t \<and> siNo t \<in> set (parseSiNos p) \<and> endDate t \<noteq> None) allTasks"
  have ends: "ends = map (\<lambda>t. the (endDate t)) ?preds"
    unfolding assms(2) by (induction allTasks) auto
  with assms(3) have ne: "?preds \<noteq> []" by auto
  from hd_in_set [OF ne] have "siNo (hd ?preds) \<in> set (parseSiNos p)" by simp
  then have "parseSiNos p \<noteq> []" by auto
  with ne assms(1) show ?thesis
    unfolding getMaxPredecessorEndDate_def ends Let_def by simp
qed

lemma adjustInPlace_Some:
  assumes "workingDaysUnbounded hol"
    and "getMaxPredecessorEndDate allTasks (the (predecessorIds task)) = Some m"
  shows "\<exists>t1 t2. pushStart hol task m = Some t1 \<and> adjustInPlace hol task allTasks = Some t2
     \<and> startDate t2 = startDate t1 \<and> endDate t2 = endDate t1 \<and> duration t2 = duration t1
     \<and> (actualEndDate task \<noteq> None \<longrightarrow> progress t2 = Num 100)"
proof -
  from pushStart_Some [OF assms(1), of task m] obtain t1 where
    "pushStart hol task m = Some t1" "actualEndDate t1 = actualEndDate task" by blast
  then show ?thesis using assms(2) by (simp add: adjustInPlace_def Let_def)
qed

lemma parseSiNos_1: "parseSiNos ''1'' = [1]"
  by (simp add: parseSiNos_def List.map_filter_def parseInt_def trim_def isSpace_def decDigit_def)

text \<open>
  Claim C2, as the code has it. For a task whose predecessor text is not blank and not the
  sentinel, and whose referenced non-deleted predecessors have at least one end date,
  \<open>adjustTaskDatesWithPredecessors\<close> returns, and the start date of the result is the
  maximum predecessor end date plus one calendar day when the task's start is unset or
  not later than that maximum; otherwise the start date is kept.
\<close>

theorem predecessor_rule_start:
  assumes "predecessorIds task = Some p" and "trim p \<noteq> []" and "p \<noteq> ''0''"
    and "ends = [the (endDate t). t \<leftarrow> allTasks,
                  \<not> isDeleted t \<and> siNo t \<in> set (parseSiNos p) \<and> endDate t \<noteq> None]"
    and "ends \<noteq> []"
    and "workingDaysUnbounded hol"
  shows "\<exists>t'. adjustTaskDatesWithPredecessors hol task allTasks = Some t' \<and>
           startDate t' =
             (if startDate task = None \<or> the (startDate task) \<le> Max (set ends)
              then Some (addDays (Max (set ends)) 1) else startDate task)"
proof -
  let ?m = "Max (set ends)"
  have np: "\<not> noPredecessors task" using assms(1-3) by (simp add: noPredecessors_def)
  have gm: "getMaxPredecessorEndDate allTasks (the (predecessorIds task)) = Some ?m"
    using getMaxPredecessorEndDate_Max [OF assms(2,4,5)] assms(1) by simp
  from adjustInPlace_Some [OF assms(6) gm] obtain t1 t2 where
    t1: "pushStart hol task ?m = Some t1" and t2: "adjustInPlace hol task allTasks = Some t2"
    and st: "startDate t2 = startDate t1" by blast
  from pushStart_Some [OF assms(6), of task ?m] t1
  have s1: "startDate t1 = (if startDate task = None \<or> the (startDate task) \<le> ?m
              then Some (addDays ?m 1) else startDate task)"
    by (auto split: if_splits)
  from adjustDates_Some [OF assms(6), of t2] obtain t' where
    "adjustDates hol t2 = Some t'" "startDate t' = startDate t2" by blast
  with np t2 st s1 show ?thesis
    by (simp add: adjustTaskDatesWithPredecessors_def)
qed

theorem predecessor_rule_start_witness:
  "\<exists>t'. adjustTaskDatesWithPredecessors sundaysOff
           ((blankTask ''b'' 2 0)\<lparr>predecessorIds := Some ''1''\<rparr>)
           [(blankTask ''a'' 1 0)\<lparr>endDate := Some 0\<rparr>] = Some t' \<and>
         startDate t' = Some 86400000"
  using predecessor_rule_start [of "(blankTask ''b'' 2 0)\<lparr>predecessorIds := Some ''1''\<rparr>" "''1''"
      "[0]" "[(blankTask ''a'' 1 0)\<lparr>endDate := Some 0\<rparr>]" sundaysOff] sundaysOff_unbounded
  by (simp add: blankTask_def trim_def isSpace_def parseSiNos_1 addDays_def msPerDay_def)

text \<open>
  Claim C2 as stated fails: the new start is the next calendar day, which need not be a
  working day. A predecessor that ends on Saturday 1970-01-03 pushes the start to Sunday
  1970-01-04, a holiday when Sundays are excluded; the first working day after the
  predecessor's end is Monday 1970-01-05.
\<close>

theorem predecessor_start_on_holiday:
  "map_option startDate
     (adjustTaskDatesWithPredecessors sundaysOff
        ((blankTask ''b'' 2 0)\<lparr>predecessorIds := Some ''1''\<rparr>)
        [(blankTask ''a'' 1 0)\<lparr>endDate := Some 172800000\<rparr>]) = Some (Some 259200000) \<and>
   sundaysOff 259200000 \<and>
   calculateEndDate sundaysOff 172800000 2 True = Some 345600000"
  by (simp add: adjustTaskDatesWithPredecessors_def noPredecessors_def adjustInPlace_def
      getMaxPredecessorEndDate_def pushStart_def adjustDates_def adjustPlanned_def
      adjustActual_def truthyNum_def calculateEndDate_def endDateLoop.simps
      blankTask_def trim_def isSpace_def parseSiNos_1 addDays_def msPerDay_def sundaysOff_def
      Let_def)

text \<open>
  Claim C9 fails in its second case. A task with the predecessor text \<open>1\<close>, no start, no
  positive duration and the end date Monday 1970-01-05 follows a task that ends on Thursday
  1970-01-01, under the calendar without Sundays. The rule moves the start to Friday
  1970-01-02. The duration of the span from that Friday to the existing end is 3 working
  days (Friday, Saturday, Monday), which is what \<open>calculateDuration\<close> gives. The code
  takes the span in calendar days instead, 4, and then \<open>adjustDates\<close> recomputes the end
  date from the start and that duration: the existing end date is moved to Tuesday
  1970-01-06. The store reaches the call when the end date of the first task is set to
  that Thursday by \<open>updateTask\<close>.
\<close>

theorem start_change_miscounts_duration_and_moves_end:
  "map_option (\<lambda>t. (startDate t, duration t, endDate t))
     (adjustTaskDatesWithPredecessors sundaysOff
        ((blankTask ''b'' 2 0)\<lparr>predecessorIds := Some ''1'', endDate := Some 345600000\<rparr>)
        [(blankTask ''a'' 1 0)\<lparr>endDate := Some 0\<rparr>])
     = Some (Some 86400000, Some 4, Some 432000000)
   \<and> calculateDuration sundaysOff 86400000 345600000 True = 3
   \<and> sundaysOff 259200000
   \<and> map_option (map (\<lambda>t. (id t, startDate t, duration t, endDate t)))
       (updateTask 10 sundaysOff
          [blankTask ''a'' 1 0,
           (blankTask ''b'' 2 0)\<lparr>predecessorIds := Some ''1'', endDate := Some 345600000\<rparr>]
          ''a'' (emptyUpdate\<lparr>u_endDate := Some (Some 0)\<rparr>))
     = Some [(''a'', None, Some 0, Some 0), (''b'', Some 86400000, Some 4, Some 432000000)]"
  by code_simp


section \<open>Claim C8: rejected indent and outdent\<close>

lemma findIndex_ge: "- 1 \<le> findIndex P xs"
  by (induction xs) (auto simp: Let_def)

lemma findIndex_found:
  "\<exists>x \<in> set xs. P x \<Longrightarrow>
   0 \<le> findIndex P xs \<and> nat (findIndex P xs) < length xs \<and> P (xs ! nat (findIndex P xs))"
proof (induction xs)
  case Nil
  then show ?case by simp
next
  case (Cons x xs)
  show ?case
  proof (cases "P x")
    case True
    then show ?thesis by simp
  next
    case False
    with Cons.prems have "\<exists>x \<in> set xs. P x" by simp
    from Cons.IH [OF this] False show ?thesis
      by (simp add: Let_def nat_add_distrib)
  qed
qed

lemma findIndex_none: "\<not> (\<exists>x \<in> set xs. P x) \<Longrightarrow> findIndex P xs = - 1"
  by (induction xs) (auto simp: Let_def)

lemma findIndex_first:
  "0 \<le> findIndex P xs \<Longrightarrow> i < nat (findIndex P xs) \<Longrightarrow> \<not> P (xs ! i)"
proof (induction xs arbitrary: i)
  case Nil
  then show ?case by simp
next
  case (Cons x xs)
  show ?case
  proof (cases "P x")
    case True
    with Cons.prems show ?thesis by simp
  next
    case False
    show ?thesis
    proof (cases i)
      case 0
      with False show ?thesis by simp
    next
      case (Suc j)
      from Cons.prems False have r: "0 \<le> findIndex P xs"
        by (simp add: Let_def split: if_splits)
      with Cons.prems False Suc have "j < nat (findIndex P xs)"
        by (simp add: Let_def nat_add_distrib split: if_splits)
      from Cons.IH [OF r this] Suc show ?thesis by simp
    qed
  qed
qed

lemma contiguousIndices_nth:
  "contiguousIndices xs \<Longrightarrow> i < length xs \<Longrightarrow> xs ! i = hd xs + int i"
proof (induction xs arbitrary: i rule: contiguousIndices.induct)
  case (1 a b rest)
  show ?case
  proof (cases i)
    case 0
    then show ?thesis by simp
  next
    case (Suc j)
    from "1.prems"(1) have c: "contiguousIndices (b # rest)" and b: "b = a + 1" by auto
    from "1.prems"(2) Suc have "j < length (b # rest)" by simp
    from "1.IH" [OF c this] have "(b # rest) ! j = b + int j" by simp
    with b Suc show ?thesis by simp
  qed
qed simp_all

lemma contiguousIndices_upto:
  "contiguousIndices xs \<Longrightarrow> xs = map (\<lambda>k. hd xs + int k) [0..<length xs]"
  by (rule nth_equalityI) (simp_all add: contiguousIndices_nth)

lemma selectedPositions_length:
  "length (filter (\<lambda>i. P (xs ! i)) [0..<length xs]) = length (filter P xs)"
proof -
  have "map (\<lambda>i. xs ! i) (filter (\<lambda>i. P (xs ! i)) [0..<length xs]) = filter P (map (\<lambda>i. xs ! i) [0..<length xs])"
    by (simp add: filter_map comp_def)
  also have "map (\<lambda>i. xs ! i) [0..<length xs] = xs" by (rule map_nth)
  finally show ?thesis by (metis length_map)
qed

lemma contiguous_code_imp_run:
  assumes vis: "visible = filter (\<lambda>t. \<not> isDeleted t) tasks"
    and sel: "selected = filter (\<lambda>t. id t \<in> S) visible"
    and cont: "contiguousIndices (selectedIndicesOf visible selected)"
  shows "contiguousRun tasks S"
proof (cases "selected = []")
  case True
  have "length (selectedPositions tasks S) = length selected"
    unfolding selectedPositions_def Let_def vis [symmetric] sel
    by (rule selectedPositions_length)
  with True show ?thesis by (simp add: contiguousRun_def)
next
  case False
  let ?f = "\<lambda>task. findIndex (\<lambda>t. id t = id task) visible"
  let ?idx = "selectedIndicesOf visible selected"
  let ?ps = "selectedPositions tasks S"
  let ?n = "length selected"
  have len: "length ?idx = ?n" by (simp add: selectedIndicesOf_def)
  have lenps: "length ?ps = ?n"
    unfolding selectedPositions_def Let_def vis [symmetric] sel
    by (rule selectedPositions_length)
  have ne: "?idx \<noteq> []" using False len by auto
  define a where "a = hd ?idx"
  have idx: "?idx = map (\<lambda>k. a + int k) [0..<?n]"
    using contiguousIndices_upto [OF cont] len unfolding a_def by simp
  have setidx: "set ?idx = ?f ` set selected"
    by (simp add: selectedIndicesOf_def)
  have good: "0 \<le> k \<and> nat k \<in> set ?ps" if "k \<in> set ?idx" for k
  proof -
    from that setidx obtain t where t: "t \<in> set selected" "k = ?f t" by auto
    then have tv: "t \<in> set visible" "id t \<in> S" using sel by auto
    then have "\<exists>x \<in> set visible. id x = id t" by blast
    from findIndex_found [OF this] t(2)
    have "0 \<le> k" "nat k < length visible" "id (visible ! nat k) = id t" by auto
    with tv(2) show ?thesis
      unfolding selectedPositions_def Let_def vis [symmetric] by simp
  qed
  have a0: "0 \<le> a" using good [of a] ne unfolding a_def by (simp add: hd_in_set)
  have sub: "{nat a..<nat a + ?n} \<subseteq> set ?ps"
  proof
    fix j assume "j \<in> {nat a..<nat a + ?n}"
    then have k: "j - nat a < ?n" and eq: "a + int (j - nat a) = int j"
      using a0 by auto
    have "int j \<in> (\<lambda>k. a + int k) ` {0..<?n}"
      by (rule image_eqI [where x = "j - nat a"]) (use k eq in simp_all)
    then have "int j \<in> set (map (\<lambda>k. a + int k) [0..<?n])" by simp
    then have "int j \<in> set ?idx" by (simp only: idx [symmetric])
    from good [OF this] show "j \<in> set ?ps" by simp
  qed
  have dps: "distinct ?ps" "sorted ?ps"
    unfolding selectedPositions_def Let_def by (simp_all add: sorted_wrt_filter)
  have "card (set ?ps) = ?n" using dps(1) lenps by (simp add: distinct_card)
  with sub have eqset: "set ?ps = {nat a..<nat a + ?n}"
    by (metis List.finite_set card_atLeastLessThan add_diff_cancel_left' card_subset_eq)
  have "?ps = [nat a..<nat a + ?n]"
    by (rule sorted_distinct_set_unique) (use dps eqset in simp_all)
  moreover from this False lenps have "hd ?ps = nat a"
    by (metis hd_upt length_greater_0_conv less_add_same_cancel1)
  ultimately show ?thesis using lenps by (simp add: contiguousRun_def)
qed

lemma zero_index_iff_first:
  assumes vis: "visible = filter (\<lambda>t. \<not> isDeleted t) tasks"
    and sel: "selected = filter (\<lambda>t. id t \<in> S) visible"
  shows "0 \<in> set (selectedIndicesOf visible selected) \<longleftrightarrow> firstTaskSelected tasks S"
proof
  assume "0 \<in> set (selectedIndicesOf visible selected)"
  then obtain t where t: "t \<in> set selected" "findIndex (\<lambda>x. id x = id t) visible = 0"
    by (auto simp: selectedIndicesOf_def)
  then have tv: "t \<in> set visible" "id t \<in> S" using sel by auto
  then have "\<exists>x \<in> set visible. id x = id t" by blast
  from findIndex_found [OF this] t(2) have "id (visible ! 0) = id t" by simp
  moreover from tv obtain v vs where "visible = v # vs" by (cases visible) auto
  ultimately show "firstTaskSelected tasks S"
    using tv(2) vis by (simp add: firstTaskSelected_def)
next
  assume "firstTaskSelected tasks S"
  then obtain v vs where v: "visible = v # vs" "id v \<in> S"
    unfolding firstTaskSelected_def vis [symmetric] by (auto split: list.splits)
  then have "v \<in> set selected" using sel by simp
  moreover have "findIndex (\<lambda>x. id x = id v) visible = 0" using v by simp
  ultimately show "0 \<in> set (selectedIndicesOf visible selected)"
    by (force simp: selectedIndicesOf_def)
qed

lemma selection_nonempty:
  "firstTaskSelected tasks S \<or> rootTaskSelected tasks S \<or> \<not> contiguousRun tasks S \<Longrightarrow> S \<noteq> {}"
  by (auto simp: firstTaskSelected_def rootTaskSelected_def contiguousRun_def
      selectedPositions_def split: list.splits)

lemma indent_rejected:
  assumes "firstTaskSelected tasks S \<or> \<not> contiguousRun tasks S"
  shows "updateTaskLevelsForIndent tasks S =
           Inl (if firstTaskSelected tasks S then CannotIndentFirstTask else IndentNotContiguous)"
proof -
  let ?vis = "filter (\<lambda>t. \<not> isDeleted t) tasks"
  let ?sel = "filter (\<lambda>t. id t \<in> S) ?vis"
  have ne: "S \<noteq> {}" using selection_nonempty assms by blast
  have z: "0 \<in> set (selectedIndicesOf ?vis ?sel) \<longleftrightarrow> firstTaskSelected tasks S"
    by (rule zero_index_iff_first) simp_all
  show ?thesis
  proof (cases "firstTaskSelected tasks S")
    case True
    with z ne show ?thesis by (simp add: updateTaskLevelsForIndent_def Let_def)
  next
    case False
    with assms have "\<not> contiguousRun tasks S" by simp
    with contiguous_code_imp_run [of ?vis tasks ?sel S]
    have "\<not> contiguousIndices (selectedIndicesOf ?vis ?sel)" by blast
    with False z ne show ?thesis by (simp add: updateTaskLevelsForIndent_def Let_def)
  qed
qed

lemma outdent_rejected:
  assumes nonneg: "\<forall>t \<in> set tasks. 0 \<le> level t"
    and "rootTaskSelected tasks S \<or> \<not> contiguousRun tasks S"
  shows "updateTaskLevelsForOutdent tasks S =
           Inl (if rootTaskSelected tasks S then CannotOutdentRootLevel else OutdentNotContiguous)"
proof -
  let ?vis = "filter (\<lambda>t. \<not> isDeleted t) tasks"
  let ?sel = "filter (\<lambda>t. id t \<in> S) ?vis"
  have ne: "S \<noteq> {}" using selection_nonempty assms(2) by blast
  have root: "rootTaskSelected tasks S \<longleftrightarrow> (\<exists>t \<in> set ?sel. level t = 0)"
    by (auto simp: rootTaskSelected_def filter_empty_conv)
  show ?thesis
  proof (cases "rootTaskSelected tasks S")
    case True
    with root obtain t where t: "t \<in> set ?sel" "level t = 0" by blast
    then have "?sel \<noteq> []" by (auto simp: filter_empty_conv)
    moreover have "Min (set (map level ?sel)) = 0"
    proof (rule Min_eqI)
      show "finite (set (map level ?sel))" by simp
      show "0 \<in> set (map level ?sel)" using t by force
      fix y assume "y \<in> set (map level ?sel)"
      then show "0 \<le> y" using nonneg by auto
    qed
    ultimately show ?thesis using True ne
      by (simp add: updateTaskLevelsForOutdent_def Let_def)
  next
    case False
    with assms(2) have "\<not> contiguousRun tasks S" by simp
    with contiguous_code_imp_run [of ?vis tasks ?sel S]
    have nc: "\<not> contiguousIndices (selectedIndicesOf ?vis ?sel)" by blast
    have "Min (set (map level ?sel)) \<noteq> 0" if "?sel \<noteq> []"
    proof
      assume "Min (set (map level ?sel)) = 0"
      moreover have "set (map level ?sel) \<noteq> {}" using that by (auto simp: filter_empty_conv)
      then have "Min (set (map level ?sel)) \<in> set (map level ?sel)"
        by (intro Min_in) simp_all
      ultimately have "0 \<in> set (map level ?sel)" by simp
      then show False using False root by auto
    qed
    with False nc ne show ?thesis
      by (auto simp: updateTaskLevelsForOutdent_def Let_def simp del: filter_filter)
  qed
qed

text \<open>
  Claim C8. \<open>updateTaskLevelsForIndent\<close> throws when the first non-deleted task is
  selected or the selected tasks are not one run of consecutive positions among the
  non-deleted tasks, and \<open>updateTaskLevelsForOutdent\<close> throws when a selected
  non-deleted task is at depth 0 (depths being non-negative) or the selection is not such
  a run. A throw returns no list, and the input list is a value that is never modified.
\<close>

theorem indent_outdent_reject:
  assumes "\<forall>t \<in> set tasks. 0 \<le> level t"
  shows "(firstTaskSelected tasks S \<or> \<not> contiguousRun tasks S \<longrightarrow>
            updateTaskLevelsForIndent tasks S =
              Inl (if firstTaskSelected tasks S then CannotIndentFirstTask else IndentNotContiguous))
       \<and> (rootTaskSelected tasks S \<or> \<not> contiguousRun tasks S \<longrightarrow>
            updateTaskLevelsForOutdent tasks S =
              Inl (if rootTaskSelected tasks S then CannotOutdentRootLevel else OutdentNotContiguous))"
  using indent_rejected [of tasks S] outdent_rejected [OF assms, of S] by blast

lemma fourTasks_not_contiguous: "\<not> contiguousRun fourTasks {''b'', ''d''}"
  by code_simp

lemma fourTasks_not_first: "\<not> firstTaskSelected fourTasks {''b'', ''d''}"
  by code_simp

lemma fourTasks_not_root: "\<not> rootTaskSelected fourTasks {''b'', ''d''}"
  by code_simp

theorem indent_outdent_reject_witness:
  "updateTaskLevelsForIndent fourTasks {''b'', ''d''} = Inl IndentNotContiguous \<and>
   updateTaskLevelsForOutdent fourTasks {''b'', ''d''} = Inl OutdentNotContiguous"
proof -
  have "\<forall>t \<in> set fourTasks. 0 \<le> level t"
    by (simp add: fourTasks_def blankTask_def)
  from indent_outdent_reject [OF this, of "{''b'', ''d''}"] fourTasks_not_contiguous fourTasks_not_first fourTasks_not_root
  show ?thesis by simp
qed


section \<open>Claim C3: ordinal density\<close>

text \<open>
  Claim C3, evaluated where it breaks. From three root tasks with the ordinals 1, 2, 3,
  deleting the first leaves the live ordinals 1, 2 and the tombstone in the list; moving
  the last task up then numbers every entry of the list by its position, the tombstone
  included, and the two live tasks end with the ordinals 2 and 3.
\<close>

theorem move_up_numbers_tombstones:
  "liveOrdinals (deleteTask sundaysOff threeTasks ''a'') = [1, 2] \<and>
   liveOrdinals (moveUp (deleteTask sundaysOff threeTasks ''a'') ''c'') = [2, 3]"
  by code_simp

section \<open>Claim C4: deleting the middle of three tasks\<close>

lemma String_1: "String 1 = ''1''"
  by code_simp

lemma String_2: "String 2 = ''2''"
  by code_simp

lemma rewritePredecessor_three:
  assumes "siNo t1 = 1" "siNo t2 = 2" "siNo t3 = 3" "\<not> isDeleted t1" "\<not> isDeleted t3"
  shows "rewritePredecessor [t1, t2, t3] [2] part =
           (case parseInt (trim part) of
              None \<Rightarrow> []
            | Some n \<Rightarrow> if n = 1 then ''1'' else if n = 3 then ''2'' else [])"
  using assms
  by (auto simp: rewritePredecessor_def String_1 String_2 Let_def split: option.splits)

lemma joinWith_empty_iff:
  "\<forall>x \<in> set xs. x \<noteq> [] \<Longrightarrow> joinWith sep xs = [] \<longleftrightarrow> xs = []"
  by (induction sep xs rule: joinWith.induct) auto

lemma rewritePredecessors_three:
  assumes "siNo t1 = 1" "siNo t2 = 2" "siNo t3 = 3" "\<not> isDeleted t1" "\<not> isDeleted t3"
    and "p \<noteq> []"
  shows "rewritePredecessors [t1, t2, t3] [2] p = expectedAfterDeleting2 (Some p)"
proof -
  let ?f = "\<lambda>part. case parseInt (trim part) of
                      None \<Rightarrow> []
                    | Some n \<Rightarrow> if n = 1 then [''1''] else if n = 3 then [''2''] else []"
  have parts: "filter (\<lambda>s. s \<noteq> []) (map (rewritePredecessor [t1, t2, t3] [2]) ps)
             = concat (map ?f ps)" for ps
    by (induction ps) (auto simp: rewritePredecessor_three [OF assms(1-5)] split: option.splits)
  have nonempty: "\<forall>x \<in> set (concat (map ?f ps)). x \<noteq> []" for ps
    by (auto split: option.splits if_splits)
  show ?thesis
    using assms(6) joinWith_empty_iff [OF nonempty]
    by (simp add: rewritePredecessors_def expectedAfterDeleting2_def parts Let_def)
qed

text \<open>
  Claim C4. For three non-deleted root tasks with the ordinals 1, 2, 3 in list order,
  \<open>updateSiNumbersAfterDeletion\<close> with the deleted ordinals \<open>[2]\<close> gives the first
  task the ordinal 1 and the third the ordinal 2, leaves the second as it is, and rewrites
  the predecessor text of both survivors: a reference to 3 becomes 2, a reference to 1
  stays, and a reference to the deleted ordinal 2 (or to no task) is dropped; the text
  \<open>3\<close> becomes \<open>2\<close>.
\<close>

theorem delete_middle_of_three:
  assumes "siNo t1 = 1" and "siNo t2 = 2" and "siNo t3 = 3"
    and "\<not> isDeleted t1" and "\<not> isDeleted t2" and "\<not> isDeleted t3"
    and "level t1 = 0" and "level t2 = 0" and "level t3 = 0"
  shows "updateSiNumbersAfterDeletion [t1, t2, t3] [2] =
           [t1\<lparr>siNo := 1, predecessorIds := expectedAfterDeleting2 (predecessorIds t1)\<rparr>,
            t2,
            t3\<lparr>siNo := 2, predecessorIds := expectedAfterDeleting2 (predecessorIds t3)\<rparr>]
       \<and> expectedAfterDeleting2 (Some ''3'') = Some ''2''
       \<and> expectedAfterDeleting2 (Some ''2,3'') = Some ''2''
       \<and> expectedAfterDeleting2 (Some ''2'') = None"
proof -
  have sorted: "sort_key siNo [t1, t2, t3] = [t1, t2, t3]"
    using assms(1-3) by simp
  have rw: "(case predecessorIds t of None \<Rightarrow> t\<lparr>siNo := n\<rparr>
             | Some p \<Rightarrow> if p = [] then t\<lparr>siNo := n\<rparr>
                        else t\<lparr>siNo := n, predecessorIds := rewritePredecessors [t1, t2, t3] [2] p\<rparr>)
            = t\<lparr>siNo := n, predecessorIds := expectedAfterDeleting2 (predecessorIds t)\<rparr>" for t n
  proof (cases "predecessorIds t")
    case None
    then show ?thesis by (simp add: expectedAfterDeleting2_def)
  next
    case (Some p)
    then show ?thesis
      using rewritePredecessors_three [OF assms(1-4,6), of p]
      by (cases "p = []") (simp_all add: expectedAfterDeleting2_def)
  qed
  have main: "updateSiNumbersAfterDeletion [t1, t2, t3] [2] =
           [t1\<lparr>siNo := 1, predecessorIds := expectedAfterDeleting2 (predecessorIds t1)\<rparr>,
            t2,
            t3\<lparr>siNo := 2, predecessorIds := expectedAfterDeleting2 (predecessorIds t3)\<rparr>]"
    unfolding updateSiNumbersAfterDeletion_def Let_def sorted
    using assms(1-6) by (simp add: Let_def rw)
  have e1: "expectedAfterDeleting2 (Some ''3'') = Some ''2''" by code_simp
  have e2: "expectedAfterDeleting2 (Some ''2,3'') = Some ''2''" by code_simp
  have e3: "expectedAfterDeleting2 (Some ''2'') = None" by code_simp
  from main e1 e2 e3 show ?thesis by simp
qed

theorem delete_middle_of_three_witness:
  "map siNo (updateSiNumbersAfterDeletion
      [(blankTask ''a'' 1 0)\<lparr>predecessorIds := Some ''3''\<rparr>, blankTask ''b'' 2 0,
       (blankTask ''c'' 3 0)\<lparr>predecessorIds := Some ''2,1''\<rparr>] [2]) = [1, 2, 2] \<and>
   map predecessorIds (updateSiNumbersAfterDeletion
      [(blankTask ''a'' 1 0)\<lparr>predecessorIds := Some ''3''\<rparr>, blankTask ''b'' 2 0,
       (blankTask ''c'' 3 0)\<lparr>predecessorIds := Some ''2,1''\<rparr>] [2])
     = [Some ''2'', Some ''0'', Some ''1'']"
proof -
  have e: "expectedAfterDeleting2 (Some ''2,1'') = Some ''1''" by code_simp
  from delete_middle_of_three [of "(blankTask ''a'' 1 0)\<lparr>predecessorIds := Some ''3''\<rparr>"
      "blankTask ''b'' 2 0" "(blankTask ''c'' 3 0)\<lparr>predecessorIds := Some ''2,1''\<rparr>"] e
  show ?thesis by (simp add: blankTask_def)
qed


section \<open>Claims C5 and C6: aggregation from children to parents\<close>

text \<open>
  Both aggregations run the same loop: the non-deleted parents in descending depth, each
  replaced by a record derived from its direct children in the current list. With distinct
  identifiers a round writes the entry of its own task only; the rounds after the one of a
  parent are for tasks that are not deeper than the parent, so they write neither the
  parent nor its children, and the parent's entry in the result is derived from its
  children as they are in the result.
\<close>

lemma findIndex_distinct:
  assumes "distinct (map f xs)" and "i < length xs"
  shows "findIndex (\<lambda>x. f x = f (xs ! i)) xs = int i"
  using assms
proof (induction xs arbitrary: i)
  case Nil
  then show ?case by simp
next
  case (Cons x xs)
  show ?case
  proof (cases i)
    case 0
    then show ?thesis by simp
  next
    case (Suc j)
    with Cons.prems have j: "j < length xs" and d: "distinct (map f xs)" by simp_all
    from Cons.prems Suc j have "f x \<noteq> f (xs ! j)" by auto
    with Cons.IH [OF d j] Suc show ?thesis by (simp add: Let_def)
  qed
qed

lemma children_not_deleted:
  "filter (\<lambda>t. \<not> isDeleted t) (findDirectChildren p us) = findDirectChildren p us"
  by (auto simp: findDirectChildren_def isChildOf_def intro: filter_cong)

lemma map_update_same: "f y = f (xs ! k) \<Longrightarrow> map f (xs[k := y]) = map f xs"
  by (metis list_update_beyond list_update_id map_update not_le_imp_less nth_map length_map)

lemma shape_ids: "map shape xs = map shape ys \<Longrightarrow> map id xs = map id ys"
proof -
  assume "map shape xs = map shape ys"
  then have "map fst (map shape xs) = map fst (map shape ys)" by simp
  then show ?thesis by (simp add: shape_def comp_def)
qed

lemma aggregateStep_alt:
  "aggregateStep derive us t =
     (if findDirectChildren t us \<noteq> [] \<and> findIndex (\<lambda>x. id x = id t) us \<noteq> - 1
      then us[nat (findIndex (\<lambda>x. id x = id t) us) :=
                derive (findDirectChildren t us) (us ! nat (findIndex (\<lambda>x. id x = id t) us))]
      else us)"
  by (simp add: aggregateStep_def children_not_deleted Let_def)

lemma aggregateStep_length: "length (aggregateStep derive us t) = length us"
  by (simp add: aggregateStep_alt)

lemma aggregateStep_shape:
  assumes "\<And>cs x. shape (derive cs x) = shape x"
  shows "map shape (aggregateStep derive us t) = map shape us"
  by (simp add: aggregateStep_alt map_update_same assms)

lemma aggregateStep_other:
  assumes "j < length us" and "id (us ! j) \<noteq> id t"
  shows "aggregateStep derive us t ! j = us ! j"
proof (cases "\<exists>x \<in> set us. id x = id t")
  case True
  from findIndex_found [OF True] have "id (us ! nat (findIndex (\<lambda>x. id x = id t) us)) = id t"
    by simp
  with assms(2) have "nat (findIndex (\<lambda>x. id x = id t) us) \<noteq> j" by auto
  then show ?thesis by (simp add: aggregateStep_alt)
next
  case False
  from findIndex_none [OF this] show ?thesis by (simp add: aggregateStep_alt)
qed

lemma fold_shape:
  assumes "\<And>cs x. shape (derive cs x) = shape x"
  shows "map shape (foldl (aggregateStep derive) us ps) = map shape us"
  by (induction ps arbitrary: us) (simp_all add: aggregateStep_shape [OF assms])

lemma shape_nth_id:
  "map shape xs = map shape ys \<Longrightarrow> j < length ys \<Longrightarrow> id (xs ! j) = id (ys ! j)"
  by (metis fst_conv length_map nth_map shape_def)

lemma fold_other:
  assumes frame: "\<And>cs x. shape (derive cs x) = shape x"
    and "j < length us" and "\<forall>b \<in> set ps. id b \<noteq> id (us ! j)"
  shows "foldl (aggregateStep derive) us ps ! j = us ! j"
  using assms(2,3)
proof (induction ps arbitrary: us)
  case Nil
  then show ?case by simp
next
  case (Cons b ps)
  let ?us = "aggregateStep derive us b"
  have l: "j < length ?us" using Cons.prems(1) by (simp add: aggregateStep_length)
  have same: "?us ! j = us ! j"
    using Cons.prems by (intro aggregateStep_other) auto
  then have "\<forall>b \<in> set ps. id b \<noteq> id (?us ! j)" using Cons.prems(2) by simp
  from Cons.IH [OF l this] same show ?case by simp
qed

lemma filter_eq_nth:
  "length xs = length ys \<Longrightarrow> (\<forall>j<length xs. P (xs ! j) \<longleftrightarrow> P (ys ! j)) \<Longrightarrow>
   (\<forall>j<length xs. P (xs ! j) \<longrightarrow> xs ! j = ys ! j) \<Longrightarrow> filter P xs = filter P ys"
proof (induction xs arbitrary: ys)
  case Nil
  then show ?case by simp
next
  case (Cons x xs)
  then obtain y ys' where ys: "ys = y # ys'" by (cases ys) auto
  from Cons.prems ys have l: "length xs = length ys'" by simp
  from Cons.prems(2) ys have p0: "P x \<longleftrightarrow> P y" by force
  from Cons.prems(3) ys have e0: "P x \<longrightarrow> x = y" by force
  have p: "\<forall>j<length xs. P (xs ! j) \<longleftrightarrow> P (ys' ! j)"
    using Cons.prems(2) ys by force
  have e: "\<forall>j<length xs. P (xs ! j) \<longrightarrow> xs ! j = ys' ! j"
    using Cons.prems(3) ys by force
  from Cons.IH [OF l p e] p0 e0 ys show ?case by auto
qed

lemma isChildOf_shape: "shape t = shape t' \<Longrightarrow> shape p = shape p' \<Longrightarrow> isChildOf p t = isChildOf p' t'"
  by (simp add: isChildOf_def shape_def)

lemma findDirectChildren_filter: "findDirectChildren p us = filter (isChildOf p) us"
  by (simp add: findDirectChildren_def)

lemma shape_nth: "map shape xs = map shape ys \<Longrightarrow> j < length ys \<Longrightarrow> shape (xs ! j) = shape (ys ! j)"
  by (metis length_map nth_map)

lemma aggregate_fold:
  assumes frame: "\<And>cs x. shape (derive cs x) = shape x"
    and dist: "distinct (map id ts)"
    and i: "i < length ts" and live: "\<not> isDeleted (ts ! i)" and par: "isParent (ts ! i)"
  defines "F \<equiv> foldl (aggregateStep derive) ts
                   (sort_key (\<lambda>t. - level t) (filter (\<lambda>t. \<not> isDeleted t \<and> isParent t) ts))"
  shows "F ! i = (if findDirectChildren (ts ! i) F = [] then ts ! i
                  else derive (findDirectChildren (ts ! i) F) (ts ! i))"
    and "map shape F = map shape ts"
proof -
  let ?step = "aggregateStep derive"
  let ?p = "ts ! i"
  let ?ps = "sort_key (\<lambda>t. - level t) (filter (\<lambda>t. \<not> isDeleted t \<and> isParent t) ts)"
  show shapeF: "map shape F = map shape ts"
    unfolding F_def by (rule fold_shape [OF frame])
  have inj: "inj_on id (set ts)" using dist by (simp add: distinct_map)
  have dts: "distinct ts" using dist by (simp add: distinct_map)
  have pin: "?p \<in> set ?ps" using i live par by simp
  then obtain A B where split: "?ps = A @ ?p # B" by (meson split_list)
  have dps: "distinct ?ps" using dts by simp
  have sub: "set A \<subseteq> set ts" "set B \<subseteq> set ts"
  proof -
    have "set ?ps \<subseteq> set ts" by auto
    then show "set A \<subseteq> set ts" "set B \<subseteq> set ts" unfolding split by auto
  qed
  have notin: "?p \<notin> set A" "?p \<notin> set B" using dps unfolding split by auto
  have idA: "\<forall>a \<in> set A. id a \<noteq> id ?p"
    using notin(1) sub(1) inj i by (metis inj_onD nth_mem subsetD)
  have idB: "\<forall>b \<in> set B. id b \<noteq> id ?p"
    using notin(2) sub(2) inj i by (metis inj_onD nth_mem subsetD)
  have "sorted (map (\<lambda>t. - level t) ?ps)" by (rule sorted_sort_key)
  then have levB: "\<forall>b \<in> set B. level b \<le> level ?p"
    unfolding split by (auto simp: sorted_append)
  define S1 where "S1 = foldl ?step ts A"
  define S2 where "S2 = ?step S1 ?p"
  have F: "F = foldl ?step S2 B" unfolding F_def split S1_def S2_def by simp
  have sh1: "map shape S1 = map shape ts" unfolding S1_def by (rule fold_shape [OF frame])
  have sh2: "map shape S2 = map shape ts"
    unfolding S2_def using aggregateStep_shape [OF frame] sh1 by simp
  have len1: "length S1 = length ts" using sh1 by (metis length_map)
  have len2: "length S2 = length ts" using sh2 by (metis length_map)
  have lenF: "length F = length ts" using shapeF by (metis length_map)
  have S1i: "S1 ! i = ?p"
    unfolding S1_def using idA i by (intro fold_other [OF frame]) auto
  have idx: "findIndex (\<lambda>x. id x = id ?p) S1 = int i"
  proof -
    have "distinct (map id S1)"
      using dist shape_ids [OF sh1] by simp
    from findIndex_distinct [OF this, of i] i len1 S1i show ?thesis by simp
  qed
  have S2i: "S2 ! i = (if findDirectChildren ?p S1 = [] then ?p
                       else derive (findDirectChildren ?p S1) ?p)"
    unfolding S2_def using idx S1i i len1 by (simp add: aggregateStep_alt)
  have Fi: "F ! i = S2 ! i"
  proof -
    have "id (S2 ! i) = id ?p" using shape_nth_id [OF sh2 i] .
    with idB have "\<forall>b \<in> set B. id b \<noteq> id (S2 ! i)" by simp
    then show ?thesis unfolding F using i len2 by (intro fold_other [OF frame]) auto
  qed
  have child_same: "F ! j = S1 ! j" if j: "j < length ts" and c: "isChildOf ?p (S1 ! j)" for j
  proof -
    have shj: "shape (S1 ! j) = shape (ts ! j)" using shape_nth [OF sh1 j] .
    then have lev: "level (ts ! j) = level ?p + 1"
      using c by (simp add: isChildOf_def shape_def)
    then have ji: "j \<noteq> i" by auto
    have "S2 ! j = S1 ! j"
      unfolding S2_def
    proof (rule aggregateStep_other)
      show "j < length S1" using j len1 by simp
      have "id (ts ! j) \<noteq> id ?p"
        using ji dist i j by (simp add: distinct_conv_nth)
      then show "id (S1 ! j) \<noteq> id ?p" using shape_nth_id [OF sh1 j] by simp
    qed
    moreover have "F ! j = S2 ! j"
      unfolding F
    proof (rule fold_other [OF frame])
      show "j < length S2" using j len2 by simp
      show "\<forall>b \<in> set B. id b \<noteq> id (S2 ! j)"
      proof
        fix b assume b: "b \<in> set B"
        with levB lev have "b \<noteq> ts ! j" by auto
        moreover have "b \<in> set ts" using b sub(2) by auto
        ultimately have "id b \<noteq> id (ts ! j)" using inj j by (metis inj_onD nth_mem)
        then show "id b \<noteq> id (S2 ! j)" using shape_nth_id [OF sh2 j] by simp
      qed
    qed
    ultimately show ?thesis by simp
  qed
  have children: "findDirectChildren ?p F = findDirectChildren ?p S1"
    unfolding findDirectChildren_filter
  proof (rule filter_eq_nth [symmetric])
    show "length S1 = length F" using len1 lenF by simp
    show "\<forall>j<length S1. isChildOf ?p (S1 ! j) = isChildOf ?p (F ! j)"
    proof (intro allI impI)
      fix j assume "j < length S1"
      then have j: "j < length ts" using len1 by simp
      have "shape (S1 ! j) = shape (F ! j)"
        using shape_nth [OF sh1 j] shape_nth [OF shapeF j] by simp
      then show "isChildOf ?p (S1 ! j) = isChildOf ?p (F ! j)"
        by (rule isChildOf_shape) simp
    qed
    show "\<forall>j<length S1. isChildOf ?p (S1 ! j) \<longrightarrow> S1 ! j = F ! j"
      using child_same len1 by auto
  qed
  show "F ! i = (if findDirectChildren ?p F = [] then ?p
                 else derive (findDirectChildren ?p F) ?p)"
    using Fi S2i children by simp
qed

lemma derivedProgress_shape: "shape (derivedProgress cs x) = shape x"
  by (simp add: derivedProgress_def shape_def Let_def)

lemma derivedDates_shape: "shape (derivedDates hol cs x) = shape x"
  by (simp add: derivedDates_def shape_def Let_def)

lemma foldl_if_filter:
  "foldl (\<lambda>s x. if P x then f s x else s) s xs = foldl f s (filter P xs)"
  by (induction xs arbitrary: s) simp_all

lemma updateParentDates_fold:
  "updateParentDates hol ts =
     foldl (aggregateStep (derivedDates hol)) ts
       (sort_key (\<lambda>t. - level t) (filter (\<lambda>t. \<not> isDeleted t \<and> isParent t) ts))"
proof -
  have "filter isParent (filter (\<lambda>t. \<not> isDeleted t) ts) = filter (\<lambda>t. \<not> isDeleted t \<and> isParent t) ts"
    by (auto intro: filter_cong)
  then show ?thesis
    by (simp add: updateParentDates_def Let_def foldl_if_filter filter_sort del: filter_filter)
qed

lemma updateParentProgress_fold:
  "updateParentProgress ts =
     foldl (aggregateStep derivedProgress) ts
       (sort_key (\<lambda>t. - level t) (filter (\<lambda>t. \<not> isDeleted t \<and> isParent t) ts))"
  by (simp add: updateParentProgress_def Let_def)

lemma children_of_same_shape:
  "shape p = shape p' \<Longrightarrow> findDirectChildren p us = findDirectChildren p' us"
  by (auto simp: findDirectChildren_def isChildOf_def shape_def intro: filter_cong)

lemma derivedDates_values:
  "startDate (derivedDates hol cs x) = minDate (validDates startDate cs)"
  "endDate (derivedDates hol cs x) = maxDate (validDates endDate cs)"
  by (simp_all add: derivedDates_def Let_def)


text \<open>
  With current labels the aggregation gives the documented values: the parent of the
  children with progress 40 and 80 gets 60, and the arithmetic is that of binary64
  numbers (the children 0.1 and 4.6 give 2.3, as in the code, where the exact mean of the
  two decimals, 2.35, would round to 2.4).
\<close>

lemma progress_of_40_and_80:
  "progress (updateParentProgress familyTasks ! 0) = Num 60"
  by code_simp

lemma doubles_of_decimals:
  "toDouble (1 / 10) = Num (3602879701896397 / 36028797018963968)"
  "toDouble (46 / 10) = Num (2589569785738035 / 562949953421312)"
  "toDouble (23 / 10) = Num (2589569785738035 / 1125899906842624)"
  by code_simp+

lemma progress_of_tenth_and_4_6:
  "progress
     (derivedProgress
        [(blankTask ''x'' 2 1)\<lparr>progress := Num (3602879701896397 / 36028797018963968)\<rparr>,
         (blankTask ''y'' 3 1)\<lparr>progress := Num (2589569785738035 / 562949953421312)\<rparr>]
        (blankTask ''p'' 1 0))
     = Num (2589569785738035 / 1125899906842624)"
  by code_simp

text \<open>
  Claim C5 fails on a list the store builds. \<open>parentAndChild\<close> is consistent
  (\<open>setTasks\<close> leaves it as it is). \<open>addTaskAfter\<close> on the child inserts a second child
  with progress 0 and the label \<open>3\<close>, the text of its ordinal; the aggregation looks for
  the children of the parent among the tasks whose label starts with \<open>1.\<close>, finds the
  first child only and keeps the progress 40, and the labels are made current after that.
  In the list the operation returns the parent has the two direct children with progress
  40 and 0, whose mean is 20, and the progress 40; the same aggregation run on that list
  gives 20.
\<close>

theorem added_child_missing_from_parent_progress:
  "setTasks sundaysOff parentAndChild = parentAndChild
   \<and> map (\<lambda>t. (id t, level t, wbsNo t, isDeleted t, progress t))
       (updateParentDates sundaysOff
          (updateParentStatus (insertedTasks parentAndChild ''x'' ''n'')))
     = [(''p'', 0, ''1'', False, Num 40), (''x'', 1, ''1.1'', False, Num 40),
        (''n'', 1, ''3'', False, Num 0)]
   \<and> map id
       (childrenByDepth
          (updateParentDates sundaysOff
             (updateParentStatus (insertedTasks parentAndChild ''x'' ''n''))) 0)
     = [''x'', ''n'']
   \<and> progress
       (updateParentProgress
          (updateParentDates sundaysOff
             (updateParentStatus (insertedTasks parentAndChild ''x'' ''n''))) ! 0)
     = Num 40
   \<and> map (\<lambda>t. (id t, level t, wbsNo t, isDeleted t, isParent t, progress t))
       (addTaskAfter sundaysOff parentAndChild ''x'' ''n'')
     = [(''p'', 0, ''1'', False, True, Num 40), (''x'', 1, ''1.1'', False, False, Num 40),
        (''n'', 1, ''1.2'', False, False, Num 0)]
   \<and> map id (childrenByDepth (addTaskAfter sundaysOff parentAndChild ''x'' ''n'') 0)
     = [''x'', ''n'']
   \<and> progress (updateParentProgress (addTaskAfter sundaysOff parentAndChild ''x'' ''n'') ! 0)
     = Num 20"
  by code_simp

text \<open>
  Claim C6 fails on a list the store builds. \<open>addTaskAfter\<close> on the parent of
  \<open>parentAndChild\<close> inserts the new task between the parent and its child, so the new
  task becomes the parent of the child, which has the planned start 1970-01-01 and the
  planned end 1970-01-02. \<open>updateParentStatus\<close> flags the new task as a parent, but
  \<open>updateParentDates\<close> looks for its children among the tasks whose label starts with
  \<open>2.\<close> while the child still has the label \<open>1.1\<close>: it finds none and leaves the planned
  dates of the new parent unset. The same aggregation run on the list the operation
  returns sets them.
\<close>

theorem adopted_child_missing_from_parent_dates:
  "map (\<lambda>t. (id t, level t, wbsNo t, isDeleted t, isParent t, startDate t, endDate t))
       (updateParentStatus (insertedTasks parentAndChild ''p'' ''n''))
     = [(''p'', 0, ''1'', False, False, Some 0, Some 86400000),
        (''n'', 0, ''2'', False, True, None, None),
        (''x'', 1, ''1.1'', False, False, Some 0, Some 86400000)]
   \<and> map id (childrenByDepth (updateParentStatus (insertedTasks parentAndChild ''p'' ''n'')) 1)
     = [''x'']
   \<and> (\<lambda>t. (id t, startDate t, endDate t))
       (updateParentDates sundaysOff
          (updateParentStatus (insertedTasks parentAndChild ''p'' ''n'')) ! 1)
     = (''n'', None, None)
   \<and> map (\<lambda>t. (id t, level t, wbsNo t, isDeleted t, isParent t, startDate t, endDate t))
       (addTaskAfter sundaysOff parentAndChild ''p'' ''n'')
     = [(''p'', 0, ''1'', False, False, Some 0, Some 86400000),
        (''n'', 0, ''2'', False, True, None, None),
        (''x'', 1, ''2.1'', False, False, Some 0, Some 86400000)]
   \<and> map id (childrenByDepth (addTaskAfter sundaysOff parentAndChild ''p'' ''n'') 1) = [''x'']
   \<and> (\<lambda>t. (id t, startDate t, endDate t))
       (updateParentDates sundaysOff (addTaskAfter sundaysOff parentAndChild ''p'' ''n'') ! 1)
     = (''n'', Some 0, Some 86400000)"
  by code_simp


section \<open>Claim C7: validation of predecessor references\<close>

text \<open>
  The search of \<open>detectCircularDependency\<close>: with fuel above the number of ordinals it
  can meet it returns, and it answers \<open>true\<close> exactly when, from one of the references,
  the dependency edges lead to the ordinal of the task or into a cycle.
\<close>

lemma safeSet_reach:
  "(dependsOn ts)\<^sup>*\<^sup>* n m \<Longrightarrow> safeSet ts target B \<Longrightarrow> n \<in> B \<Longrightarrow> m \<in> B"
  by (induction rule: rtranclp_induct) (auto simp: safeSet_def)

lemma safeSet_not_closing:
  assumes "safeSet ts target B" and "n \<in> B"
  shows "\<not> closesCycle ts target n"
proof
  assume "closesCycle ts target n"
  then obtain m where m: "(dependsOn ts)\<^sup>*\<^sup>* n m" "m = target \<or> (dependsOn ts)\<^sup>+\<^sup>+ m m"
    by (auto simp: closesCycle_def)
  from safeSet_reach [OF m(1) assms(1) assms(2)] have "m \<in> B" .
  with assms(1) m(2) show False by (auto simp: safeSet_def)
qed

lemma safeSet_insert:
  assumes "safeSet ts target B" and "n \<noteq> target" and "\<forall>m. dependsOn ts n m \<longrightarrow> m \<in> B"
    and "n \<notin> B"
  shows "safeSet ts target (insert n B)"
proof -
  have "\<not> (dependsOn ts)\<^sup>+\<^sup>+ n n"
  proof
    assume "(dependsOn ts)\<^sup>+\<^sup>+ n n"
    then obtain m where m: "dependsOn ts n m" "(dependsOn ts)\<^sup>*\<^sup>* m n"
      by (meson tranclpD)
    from m(1) assms(3) have "m \<in> B" by blast
    from safeSet_reach [OF m(2) assms(1) this] assms(4) show False by simp
  qed
  with assms(1-3) show ?thesis by (auto simp: safeSet_def)
qed

lemma closesCycle_step:
  assumes "dependsOn ts n m" and "closesCycle ts target m"
  shows "closesCycle ts target n"
proof -
  from assms(2) obtain x where x: "(dependsOn ts)\<^sup>*\<^sup>* m x" "x = target \<or> (dependsOn ts)\<^sup>+\<^sup>+ x x"
    by (auto simp: closesCycle_def)
  from assms(1) x(1) have "(dependsOn ts)\<^sup>*\<^sup>* n x"
    by (rule converse_rtranclp_into_rtranclp)
  with x(2) show ?thesis unfolding closesCycle_def by blast
qed

lemma closesCycle_self: "closesCycle ts target target"
  unfolding closesCycle_def by blast

lemma closesCycle_loop: "(dependsOn ts)\<^sup>+\<^sup>+ n n \<Longrightarrow> closesCycle ts target n"
  unfolding closesCycle_def by blast

lemma card_Diff_insert_less:
  assumes "finite U" and "n \<in> U" and "n \<notin> vis" and "card (U - vis) < Suc fuel"
  shows "card (U - insert n vis) < fuel"
proof -
  have "U - insert n vis = (U - vis) - {n}" by auto
  moreover have "n \<in> U - vis" using assms(2,3) by simp
  moreover have "finite (U - vis)" using assms(1) by simp
  ultimately have "card (U - insert n vis) = card (U - vis) - 1" by simp
  moreover have "0 < card (U - vis)"
    using \<open>n \<in> U - vis\<close> \<open>finite (U - vis)\<close> by (metis card_gt_0_iff empty_iff)
  ultimately show ?thesis using assms(4) by linarith
qed

lemma card_Diff_mono:
  assumes "finite U" and "vis \<subseteq> vis'"
  shows "card (U - vis') \<le> card (U - vis)"
  by (rule card_mono) (use assms in auto)

lemma hasCycle_correct:
  fixes U :: "int set"
  assumes finU: "finite U"
  shows "path \<subseteq> vis \<Longrightarrow> safeSet ts target (vis - path) \<Longrightarrow> target \<notin> path \<Longrightarrow>
         (\<forall>g \<in> path. (dependsOn ts)\<^sup>+\<^sup>+ g n) \<Longrightarrow> n \<in> U \<Longrightarrow> card (U - vis) < fuel \<Longrightarrow>
         \<forall>x y. dependsOn ts x y \<longrightarrow> y \<in> U \<Longrightarrow>
         \<exists>b vis'. hasCycle fuel ts target n path vis = Some (b, vis') \<and> vis \<subseteq> vis'
            \<and> (if b then closesCycle ts target n
                else safeSet ts target (vis' - path) \<and> n \<in> vis' - path)"
    and "path \<subseteq> vis \<Longrightarrow> safeSet ts target (vis - path) \<Longrightarrow> target \<notin> path \<Longrightarrow>
         (\<forall>m \<in> set ms. \<forall>g \<in> path. (dependsOn ts)\<^sup>+\<^sup>+ g m) \<Longrightarrow> set ms \<subseteq> U \<Longrightarrow>
         card (U - vis) < fuel \<Longrightarrow>
         \<forall>x y. dependsOn ts x y \<longrightarrow> y \<in> U \<Longrightarrow>
         \<exists>b vis'. hasCycleAny fuel ts target ms path vis = Some (b, vis') \<and> vis \<subseteq> vis'
            \<and> (if b then \<exists>m \<in> set ms. closesCycle ts target m
                else safeSet ts target (vis' - path) \<and> set ms \<subseteq> vis' - path)"
proof (induction fuel ts target n path vis and fuel ts target ms path vis
    rule: hasCycle_hasCycleAny.induct)
  case (1 tasks taskSiNo currentSiNo path visited)
  then show ?case by simp
next
  case (2 fuel tasks taskSiNo n path vis)
  show ?case
  proof (cases "n \<in> path")
    case True
    with "2.prems"(4) have "(dependsOn tasks)\<^sup>+\<^sup>+ n n" by blast
    then have "closesCycle tasks taskSiNo n" by (rule closesCycle_loop)
    with True show ?thesis
      by (intro exI [of _ True] exI [of _ vis]) simp
  next
    case np: False
    show ?thesis
    proof (cases "n \<in> vis")
      case True
      with np "2.prems"(2) show ?thesis
        by (intro exI [of _ False] exI [of _ vis]) simp
    next
      case nv: False
      show ?thesis
      proof (cases "n = taskSiNo")
        case True
        with np nv closesCycle_self [of tasks taskSiNo] show ?thesis
          by (intro exI [of _ True] exI [of _ "insert n vis"]) auto
      next
        case nt: False
        let ?ms = "predecessorsOf tasks n"
        let ?path = "insert n path" and ?vis = "insert n vis"
        have eq: "?vis - ?path = vis - path" using nv by auto
        have p1: "?path \<subseteq> ?vis" using "2.prems"(1) by auto
        have p2: "safeSet tasks taskSiNo (?vis - ?path)" using "2.prems"(2) eq by simp
        have p3: "taskSiNo \<notin> ?path" using "2.prems"(3) nt by auto
        have p4: "\<forall>m \<in> set ?ms. \<forall>g \<in> ?path. (dependsOn tasks)\<^sup>+\<^sup>+ g m"
        proof (intro ballI)
          fix m g assume m: "m \<in> set ?ms" and g: "g \<in> ?path"
          then have e: "dependsOn tasks n m" by (simp add: dependsOn_def)
          show "(dependsOn tasks)\<^sup>+\<^sup>+ g m"
          proof (cases "g = n")
            case True
            with e show ?thesis by auto
          next
            case False
            with g "2.prems"(4) have "(dependsOn tasks)\<^sup>+\<^sup>+ g n" by auto
            with e show ?thesis by (meson tranclp.trancl_into_trancl)
          qed
        qed
        have p5: "set ?ms \<subseteq> U"
        proof
          fix m assume "m \<in> set ?ms"
          then have "dependsOn tasks n m" by (simp add: dependsOn_def)
          then show "m \<in> U" using "2.prems"(7) by blast
        qed
        have p6: "card (U - ?vis) < fuel"
          using card_Diff_insert_less [OF finU "2.prems"(5) nv "2.prems"(6)] .
        from "2.IH" [OF np nv nt p1 p2 p3 p4 p5 p6 "2.prems"(7)]
        obtain b vis' where r: "hasCycleAny fuel tasks taskSiNo ?ms ?path ?vis = Some (b, vis')"
          and sub: "?vis \<subseteq> vis'"
          and res: "if b then \<exists>m \<in> set ?ms. closesCycle tasks taskSiNo m
                    else safeSet tasks taskSiNo (vis' - ?path) \<and> set ?ms \<subseteq> vis' - ?path"
          by blast
        have call: "hasCycle (Suc fuel) tasks taskSiNo n path vis = Some (b, vis')"
          using np nv nt r by simp
        have sub': "vis \<subseteq> vis'" using sub by auto
        show ?thesis
        proof (cases b)
          case True
          with res obtain m where m: "m \<in> set ?ms" "closesCycle tasks taskSiNo m" by auto
          from m(1) have "dependsOn tasks n m" by (simp add: dependsOn_def)
          from closesCycle_step [OF this m(2)] True call sub' show ?thesis
            by (intro exI [of _ True] exI [of _ vis']) simp
        next
          case False
          with res have s: "safeSet tasks taskSiNo (vis' - ?path)"
            and ms: "set ?ms \<subseteq> vis' - ?path" by auto
          have nin: "n \<in> vis'" using sub by auto
          have eq': "vis' - path = insert n (vis' - ?path)" using nin np by auto
          have "safeSet tasks taskSiNo (insert n (vis' - ?path))"
          proof (rule safeSet_insert [OF s nt])
            show "\<forall>m. dependsOn tasks n m \<longrightarrow> m \<in> vis' - ?path"
              using ms by (auto simp: dependsOn_def)
            show "n \<notin> vis' - ?path" by simp
          qed
          with eq' have "safeSet tasks taskSiNo (vis' - path)" by simp
          with False call sub' nin np show ?thesis
            by (intro exI [of _ False] exI [of _ vis']) simp
        qed
      qed
    qed
  qed
next
  case (3 fuel tasks taskSiNo path visited)
  then show ?case by (intro exI [of _ False] exI [of _ visited]) simp
next
  case (4 fuel tasks taskSiNo predSiNo rest path vis)
  have h4: "\<forall>g \<in> path. (dependsOn tasks)\<^sup>+\<^sup>+ g predSiNo" using "4.prems"(4) by simp
  have h5: "predSiNo \<in> U" using "4.prems"(5) by simp
  from "4.IH"(1) [OF "4.prems"(1-3) h4 h5 "4.prems"(6,7)]
  obtain b1 v1 where r1: "hasCycle fuel tasks taskSiNo predSiNo path vis = Some (b1, v1)"
    and sub1: "vis \<subseteq> v1"
    and res1: "if b1 then closesCycle tasks taskSiNo predSiNo
               else safeSet tasks taskSiNo (v1 - path) \<and> predSiNo \<in> v1 - path"
    by blast
  show ?case
  proof (cases b1)
    case True
    with r1 sub1 res1 show ?thesis
      by (intro exI [of _ True] exI [of _ v1]) simp
  next
    case False
    with res1 have s1: "safeSet tasks taskSiNo (v1 - path)" and in1: "predSiNo \<in> v1 - path"
      by auto
    have q1: "path \<subseteq> v1" using "4.prems"(1) sub1 by auto
    have q4: "\<forall>m \<in> set rest. \<forall>g \<in> path. (dependsOn tasks)\<^sup>+\<^sup>+ g m" using "4.prems"(4) by simp
    have q5: "set rest \<subseteq> U" using "4.prems"(5) by simp
    have q6: "card (U - v1) < fuel"
      using card_Diff_mono [OF finU sub1] "4.prems"(6) by linarith
    have nb: "\<not> b1" using False .
    from "4.IH"(2) [OF r1 refl nb q1 s1 "4.prems"(3) q4 q5 q6 "4.prems"(7)]
    obtain b2 v2 where r2: "hasCycleAny fuel tasks taskSiNo rest path v1 = Some (b2, v2)"
      and sub2: "v1 \<subseteq> v2"
      and res2: "if b2 then \<exists>m \<in> set rest. closesCycle tasks taskSiNo m
                 else safeSet tasks taskSiNo (v2 - path) \<and> set rest \<subseteq> v2 - path"
      by blast
    have call: "hasCycleAny fuel tasks taskSiNo (predSiNo # rest) path vis = Some (b2, v2)"
      using r1 r2 False by simp
    have sub: "vis \<subseteq> v2" using sub1 sub2 by auto
    show ?thesis
    proof (cases b2)
      case True
      with res2 call sub show ?thesis
        by (intro exI [of _ True] exI [of _ v2]) auto
    next
      case b2: False
      with res2 in1 sub2 call sub show ?thesis
        by (intro exI [of _ False] exI [of _ v2]) auto
    qed
  qed
qed

lemma dependsOn_refs:
  assumes "dependsOn ts x y"
  shows "y \<in> set (concat (map taskRefs ts))"
proof -
  from assms have m: "y \<in> set (predecessorsOf ts x)" by (simp add: dependsOn_def)
  then obtain t where t: "find (\<lambda>t. \<not> isDeleted t \<and> siNo t = x) ts = Some t"
    by (cases "find (\<lambda>t. \<not> isDeleted t \<and> siNo t = x) ts") (simp_all add: predecessorsOf_def)
  with m obtain p where p: "predecessorIds t = Some p"
    by (cases "predecessorIds t") (simp_all add: predecessorsOf_def)
  with m t have y: "y \<in> set (parseSiNos p)"
    by (simp add: predecessorsOf_def split: if_splits)
  from t have "t \<in> set ts" by (auto simp: find_Some_iff)
  moreover from p y have "y \<in> set (taskRefs t)" by (simp add: taskRefs_def)
  ultimately show ?thesis by auto
qed

lemma hasCycleAny_top:
  assumes "searchBound ts text < fuel"
  shows "\<exists>vis'. hasCycleAny fuel ts target (parseSiNos text) {} {}
           = Some (\<exists>s \<in> set (parseSiNos text). closesCycle ts target s, vis')"
proof -
  let ?U = "set (parseSiNos text) \<union> set (concat (map taskRefs ts))"
  have fin: "finite ?U" by simp
  have "card ?U \<le> card (set (parseSiNos text)) + card (set (concat (map taskRefs ts)))"
    by (rule card_Un_le)
  also have "\<dots> \<le> searchBound ts text"
    unfolding searchBound_def by (intro add_mono card_length)
  finally have c: "card (?U - {}) < fuel" using assms by simp
  have succ: "\<forall>x y. dependsOn ts x y \<longrightarrow> y \<in> ?U" using dependsOn_refs by blast
  have safe: "safeSet ts target ({} - {})" by (simp add: safeSet_def)
  from hasCycle_correct(2) [OF fin _ safe _ _ _ c succ, of "parseSiNos text"]
  obtain b vis' where r: "hasCycleAny fuel ts target (parseSiNos text) {} {} = Some (b, vis')"
    and res: "if b then \<exists>m \<in> set (parseSiNos text). closesCycle ts target m
              else safeSet ts target (vis' - {}) \<and> set (parseSiNos text) \<subseteq> vis' - {}"
    by auto
  have "b \<longleftrightarrow> (\<exists>s \<in> set (parseSiNos text). closesCycle ts target s)"
  proof (cases b)
    case True
    with res show ?thesis by simp
  next
    case False
    with res have "safeSet ts target vis'" "set (parseSiNos text) \<subseteq> vis'" by simp_all
    then have "\<forall>s \<in> set (parseSiNos text). \<not> closesCycle ts target s"
      using safeSet_not_closing by blast
    with False show ?thesis by simp
  qed
  with r show ?thesis by auto
qed

lemma detectCircularDependency_correct:
  assumes "searchBound ts text < fuel"
  shows "detectCircularDependency fuel ts tid text =
           Some (trim text \<noteq> [] \<and> text \<noteq> ''0'' \<and>
                 (\<exists>t. find (\<lambda>t. id t = tid) ts = Some t \<and> siNo t \<noteq> 0 \<and>
                      (\<exists>s \<in> set (parseSiNos text). closesCycle ts (siNo t) s)))"
proof (cases "trim text = [] \<or> text = ''0''")
  case True
  then show ?thesis by (auto simp: detectCircularDependency_def)
next
  case False
  show ?thesis
  proof (cases "find (\<lambda>t. id t = tid) ts")
    case None
    with False show ?thesis by (simp add: detectCircularDependency_def)
  next
    case (Some t)
    show ?thesis
    proof (cases "siNo t = 0")
      case True
      with False Some show ?thesis by (simp add: detectCircularDependency_def)
    next
      case nz: False
      from hasCycleAny_top [OF assms, of "siNo t"] obtain vis' where
        "hasCycleAny fuel ts (siNo t) (parseSiNos text) {} {}
           = Some (\<exists>s \<in> set (parseSiNos text). closesCycle ts (siNo t) s, vis')" by blast
      with False Some nz show ?thesis by (simp add: detectCircularDependency_def)
    qed
  qed
qed


text \<open>
  What \<open>validatePredecessors\<close> reports, with the ancestors as \<open>findAncestors\<close> finds
  them: it returns when the fuel exceeds the search bound, and its list is not empty
  exactly when the text is not blank and holds a reference to an ordinal of no non-deleted
  task, to the ordinal of the task, to the ordinal of one of those ancestors, or, for a
  text other than the sentinel and a task that is in the list with an ordinal other than 0,
  a reference from which the dependency edges lead to the task's ordinal or into a cycle.
\<close>

lemma validatePredecessors_reports:
  assumes "searchBound tasks text < fuel"
  shows "\<exists>errors. validatePredecessors fuel task text tasks = Some errors \<and>
           (errors \<noteq> [] \<longleftrightarrow>
              trim text \<noteq> [] \<and>
              ((\<exists>n \<in> set (parseSiNos text). \<not> (\<exists>t \<in> set tasks. \<not> isDeleted t \<and> siNo t = n))
               \<or> siNo task \<in> set (parseSiNos text)
               \<or> (\<exists>a \<in> set (findAncestors tasks task). siNo a \<in> set (parseSiNos text))
               \<or> (text \<noteq> ''0'' \<and>
                   (\<exists>t. find (\<lambda>t. id t = id task) tasks = Some t \<and> siNo t \<noteq> 0 \<and>
                        (\<exists>s \<in> set (parseSiNos text). closesCycle tasks (siNo t) s)))))"
proof (cases "trim text = []")
  case True
  then show ?thesis by (simp add: validatePredecessors_def)
next
  case False
  have inv: "filter (\<lambda>n. find (\<lambda>t. \<not> isDeleted t \<and> siNo t = n) tasks = None) (parseSiNos text) \<noteq> []
      \<longleftrightarrow> (\<exists>n \<in> set (parseSiNos text). \<not> (\<exists>t \<in> set tasks. \<not> isDeleted t \<and> siNo t = n))"
    by (auto simp: filter_empty_conv find_None_iff)
  have anc: "filter (\<lambda>n. n \<in> set (map siNo (findAncestors tasks task))) (parseSiNos text) \<noteq> []
      \<longleftrightarrow> (\<exists>a \<in> set (findAncestors tasks task). siNo a \<in> set (parseSiNos text))"
    by (auto simp: filter_empty_conv)
  show ?thesis
    using False inv anc
    unfolding validatePredecessors_def Let_def detectCircularDependency_correct [OF assms]
    by (simp del: set_map)
qed


text \<open>
  The sentinel is not read as the empty set of references: for the text \<open>0\<close> the ordinal
  0 is looked up and, with no task of that ordinal, reported. The table tests for the
  sentinel before it validates.
\<close>

lemma sentinel_reported_invalid:
  "validatePredecessors 5 (blankTask ''a'' 1 0) ''0'' [blankTask ''a'' 1 0]
     = Some [InvalidSiNumbers [0]]"
  by code_simp

text \<open>
  Claim C7 fails on a list the store builds: a reference to an ancestor is accepted when
  a tombstone stands between the task and that ancestor. Of the three root tasks
  \<open>a\<close>, \<open>b\<close>, \<open>c\<close> the second is deleted and the third is then indented. In the
  resulting list \<open>c\<close> has depth 1 and its parent is \<open>a\<close>, the nearest preceding
  non-deleted task one level up, with ordinal 1 (the label of \<open>c\<close> is \<open>1.1\<close>).
  \<open>findAncestors\<close> walks back over the tombstone of \<open>b\<close>, takes it as the ancestor at
  depth 0 and stops, so \<open>validatePredecessors\<close> returns no error for the reference
  \<open>1\<close> from \<open>c\<close> to its parent.
\<close>

theorem reference_to_parent_behind_tombstone_accepted:
  "(case handleDemote sundaysOff (deleteTask sundaysOff threeTasks ''b'') {''c''} of
      Inl e \<Rightarrow> None
    | Inr tasks \<Rightarrow>
        Some (map (\<lambda>t. (id t, siNo t, level t, wbsNo t, isDeleted t)) tasks,
              map_option (\<lambda>t. (id t, siNo t)) (parentByDepth tasks 2),
              map id (findAncestors tasks (tasks ! 2)),
              validatePredecessors 10 (tasks ! 2) ''1'' tasks))
   = Some ([(''a'', 1, 0, ''1'', False), (''b'', 2, 0, ''2'', True), (''c'', 2, 1, ''1.1'', False)],
           Some (''a'', 1),
           [''b''],
           Some [])"
  by code_simp


section \<open>Claim C10: an actual end date completes the task\<close>

text \<open>
  The propagation to dependents returns when the calendar has a working day after every
  date and the fuel exceeds the number of tasks; it keeps the identifier, depth and
  tombstone flag at every position, and the entry of the updated task stays finished.
\<close>

lemma pushStart_frame:
  "pushStart hol task m = Some t1 \<Longrightarrow>
   frame3 t1 = frame3 task \<and> progress t1 = progress task
   \<and> actualStartDate t1 = actualStartDate task \<and> actualEndDate t1 = actualEndDate task"
  by (auto simp: pushStart_def Let_def frame3_def split: if_splits)

lemma adjustInPlace_frame:
  assumes "adjustInPlace hol task all = Some t2"
  shows "frame3 t2 = frame3 task \<and> actualEndDate t2 = actualEndDate task
         \<and> (actualEndDate task \<noteq> None \<longrightarrow> progress t2 = Num 100)"
proof (cases "getMaxPredecessorEndDate all (the (predecessorIds task))")
  case None
  with assms show ?thesis
    by (auto simp: adjustInPlace_def Let_def frame3_def split: if_splits)
next
  case (Some m)
  with assms obtain t1 where t1: "pushStart hol task m = Some t1"
    by (auto simp: adjustInPlace_def split: Option.bind_splits)
  from pushStart_frame [OF t1] assms Some t1 show ?thesis
    by (auto simp: adjustInPlace_def Let_def frame3_def split: if_splits)
qed

lemma adjustInPlace_total:
  assumes "workingDaysUnbounded hol"
  shows "\<exists>t2. adjustInPlace hol task all = Some t2"
proof (cases "getMaxPredecessorEndDate all (the (predecessorIds task))")
  case None
  then show ?thesis by (simp add: adjustInPlace_def Let_def)
next
  case (Some m)
  from adjustInPlace_Some [OF assms Some] show ?thesis by blast
qed

lemma adjustPlanned_frame:
  "adjustPlanned hol t = Some t' \<Longrightarrow>
   frame3 t' = frame3 t \<and> progress t' = progress t \<and> actualEndDate t' = actualEndDate t
   \<and> actualStartDate t' = actualStartDate t \<and> actualDuration t' = actualDuration t"
  by (auto simp: adjustPlanned_def frame3_def split: option.splits if_splits)

lemma adjustActual_frame:
  "adjustActual hol t = Some t' \<Longrightarrow>
   frame3 t' = frame3 t \<and> progress t' = progress t
   \<and> (actualEndDate t \<noteq> None \<longrightarrow> actualEndDate t' = actualEndDate t)"
  by (auto simp: adjustActual_def frame3_def split: option.splits if_splits)

lemma adjustDates_frame:
  assumes "adjustDates hol t = Some t'"
  shows "frame3 t' = frame3 t \<and> (finished t \<longrightarrow> finished t')"
proof -
  from assms obtain t1 where t1: "adjustPlanned hol t = Some t1" and t2: "adjustActual hol t1 = Some t'"
    by (auto simp: adjustDates_def split: Option.bind_splits)
  from adjustPlanned_frame [OF t1] adjustActual_frame [OF t2] show ?thesis
    by (auto simp: finished_def)
qed

lemma adjust_step:
  assumes "workingDaysUnbounded hol"
  shows "\<exists>m r. adjustMutation hol t all = Some m \<and> adjustDates hol m = Some r
           \<and> frame3 m = frame3 t \<and> frame3 r = frame3 t
           \<and> (finished t \<longrightarrow> finished m \<and> finished r)"
proof -
  have "\<exists>m. adjustMutation hol t all = Some m"
    using adjustInPlace_total [OF assms, of t all] by (cases "noPredecessors t") (simp_all add: adjustMutation_def)
  then obtain m where m: "adjustMutation hol t all = Some m" by blast
  have fm: "frame3 m = frame3 t \<and> (finished t \<longrightarrow> finished m)"
  proof (cases "noPredecessors t")
    case True
    with m show ?thesis by (simp add: adjustMutation_def)
  next
    case False
    with m have "adjustInPlace hol t all = Some m" by (simp add: adjustMutation_def)
    from adjustInPlace_frame [OF this] show ?thesis by (auto simp: finished_def)
  qed
  obtain r where r: "adjustDates hol m = Some r"
    using adjustDates_Some [OF assms] by blast
  from adjustDates_frame [OF r] fm m r show ?thesis by auto
qed

lemma findIndex_hit:
  assumes "findIndex P xs \<noteq> - 1"
  shows "0 \<le> findIndex P xs \<and> nat (findIndex P xs) < length xs \<and> P (xs ! nat (findIndex P xs))"
proof -
  from assms findIndex_none [of xs P] have "\<exists>x \<in> set xs. P x" by blast
  then show ?thesis by (rule findIndex_found)
qed

lemma distinct_fst_eq:
  assumes "distinct (map fst xs)" and "x \<in> set xs" and "y \<in> set xs" and "fst x = fst y"
  shows "x = y"
  using assms by (meson distinct_map inj_onD)

lemma updatedTasksOf_nth:
  "k < length (slots st) \<Longrightarrow> updatedTasksOf st ! k = objs st ! (slots st ! k)"
  by (simp add: updatedTasksOf_def)

lemma depInv_step:
  assumes inv: "depInv sh tid old st" and dist: "distinct (map fst sh)"
    and a: "a < length (objs st)" "a \<noteq> old"
    and idx: "findIndex (\<lambda>t. id t = id (objs st ! a)) (updatedTasksOf st) \<noteq> - 1"
    and fm: "frame3 m = frame3 (objs st ! a)" and fr: "frame3 r = frame3 (objs st ! a)"
    and fin: "finished (objs st ! a) \<longrightarrow> finished m \<and> finished r"
  shows "depInv sh tid old
           (st\<lparr>objs := (objs st)[a := m] @ [r],
               slots := (slots st)[nat (findIndex (\<lambda>t. id t = id (objs st ! a)) (updatedTasksOf st))
                                   := length (objs st)]\<rparr>)"
proof -
  let ?d = "objs st ! a"
  let ?L = "length (objs st)"
  let ?k = "nat (findIndex (\<lambda>t. id t = id ?d) (updatedTasksOf st))"
  let ?objs = "(objs st)[a := m] @ [r]"
  let ?slots = "(slots st)[?k := ?L]"
  from inv have old: "old < ?L"
    and sl: "\<forall>b \<in> set (slots st). b < ?L \<and> b \<noteq> old"
    and shp: "map frame3 (updatedTasksOf st) = sh"
    and ob: "\<forall>b < ?L. b \<noteq> old \<longrightarrow> frame3 (objs st ! b) \<in> set sh
                \<and> (id (objs st ! b) = tid \<longrightarrow> finished (objs st ! b))"
    and pr: "processed st \<subseteq> fst ` set sh"
    by (simp_all add: depInv_def)
  from findIndex_hit [OF idx] have k0: "?k < length (updatedTasksOf st)"
    and kid0: "id (updatedTasksOf st ! ?k) = id ?d"
    by simp_all
  have k: "?k < length (slots st)" using k0 by (simp add: updatedTasksOf_def)
  have "updatedTasksOf st ! ?k = objs st ! (slots st ! ?k)"
    using k by (rule updatedTasksOf_nth)
  with kid0 have kid: "id (objs st ! (slots st ! ?k)) = id ?d" by simp
  have din: "frame3 ?d \<in> set sh" and dfin: "id ?d = tid \<longrightarrow> finished ?d"
    using ob a by auto
  have idm: "id m = id ?d" and idr: "id r = id ?d"
    using fm fr by (simp_all add: frame3_def)
  have nth_objs: "?objs ! b = (if b = a then m else objs st ! b)" if "b < ?L" for b
    using that by (simp add: nth_append nth_list_update)
  have nth_new: "?objs ! ?L = r"
    by (metis length_list_update nth_append_length)
  have c1: "old < length ?objs" using old by simp
  have c2: "\<forall>b \<in> set ?slots. b < length ?objs \<and> b \<noteq> old"
  proof
    fix b assume "b \<in> set ?slots"
    then have "b = ?L \<or> b \<in> set (slots st)"
      using set_update_subset_insert [of "slots st" ?k ?L] by auto
    with sl old show "b < length ?objs \<and> b \<noteq> old" by auto
  qed
  have c3: "map frame3 (map (\<lambda>b. ?objs ! b) ?slots) = sh"
  proof (rule nth_equalityI)
    show "length (map frame3 (map (\<lambda>b. ?objs ! b) ?slots)) = length sh"
      using shp by (auto simp: updatedTasksOf_def)
  next
    fix j assume "j < length (map frame3 (map (\<lambda>b. ?objs ! b) ?slots))"
    then have j: "j < length (slots st)" by simp
    have shj: "sh ! j = frame3 (objs st ! (slots st ! j))"
      using shp j by (auto simp: updatedTasksOf_def)
    have shin: "sh ! j \<in> set sh" using shp j by (metis length_map nth_mem updatedTasksOf_def)
    show "map frame3 (map (\<lambda>b. ?objs ! b) ?slots) ! j = sh ! j"
    proof (cases "j = ?k")
      case True
      have "fst (sh ! j) = id ?d" using shj kid True by (simp add: frame3_def)
      then have "sh ! j = frame3 ?d"
        using distinct_fst_eq [OF dist shin din] by (simp add: frame3_def)
      with True j fr nth_new show ?thesis by simp
    next
      case False
      let ?b = "slots st ! j"
      have b: "?b < ?L" using sl j by auto
      have "frame3 (?objs ! ?b) = frame3 (objs st ! ?b)"
        using nth_objs [OF b] fm by auto
      with False j shj show ?thesis by simp
    qed
  qed
  have c4: "\<forall>b < length ?objs. b \<noteq> old \<longrightarrow>
              frame3 (?objs ! b) \<in> set sh \<and> (id (?objs ! b) = tid \<longrightarrow> finished (?objs ! b))"
  proof (intro allI impI)
    fix b assume b: "b < length ?objs" and bo: "b \<noteq> old"
    show "frame3 (?objs ! b) \<in> set sh \<and> (id (?objs ! b) = tid \<longrightarrow> finished (?objs ! b))"
    proof (cases "b = ?L")
      case True
      with nth_new fr din idr dfin fin show ?thesis by auto
    next
      case False
      with b have bl: "b < ?L" by simp
      show ?thesis
      proof (cases "b = a")
        case True
        with nth_objs [OF bl] fm din idm dfin fin show ?thesis by auto
      next
        case False
        with nth_objs [OF bl] ob bl bo show ?thesis by auto
      qed
    qed
  qed
  show ?thesis
    unfolding depInv_def using c1 c2 c3 c4 pr by (simp add: updatedTasksOf_def)
qed

lemma loop_from_call:
  assumes wd: "workingDaysUnbounded hol" and dist: "distinct (map fst sh)"
    and call: "\<And>taskId st. depInv sh tid old st \<Longrightarrow> taskId \<in> fst ` set sh \<Longrightarrow>
                 card (fst ` set sh - processed st) < fuel \<Longrightarrow>
                 \<exists>st'. updateDependents fuel hol taskId st = Some st' \<and> depInv sh tid old st'
                    \<and> processed st \<subseteq> processed st' \<and> length (objs st) \<le> length (objs st')"
  shows "depInv sh tid old st \<Longrightarrow> (\<forall>a \<in> set deps. a < length (objs st) \<and> a \<noteq> old) \<Longrightarrow>
         card (fst ` set sh - processed st) < fuel \<Longrightarrow>
         \<exists>st'. updateDependentsLoop fuel hol deps st = Some st' \<and> depInv sh tid old st'
            \<and> processed st \<subseteq> processed st' \<and> length (objs st) \<le> length (objs st')"
proof (induction deps arbitrary: st)
  case Nil
  then show ?case by simp
next
  case (Cons a rest)
  let ?d = "objs st ! a"
  let ?idx = "findIndex (\<lambda>t. id t = id ?d) (updatedTasksOf st)"
  have a: "a < length (objs st)" "a \<noteq> old" using Cons.prems(2) by auto
  have rest: "\<forall>b \<in> set rest. b < length (objs st) \<and> b \<noteq> old" using Cons.prems(2) by auto
  show ?case
  proof (cases "?idx = - 1")
    case True
    from Cons.IH [OF Cons.prems(1) rest Cons.prems(3)] True show ?thesis
      by (simp add: Let_def)
  next
    case False
    from adjust_step [OF wd, of ?d "updatedTasksOf st"] obtain m r where
      m: "adjustMutation hol ?d (updatedTasksOf st) = Some m" and r: "adjustDates hol m = Some r"
      and fm: "frame3 m = frame3 ?d" and fr: "frame3 r = frame3 ?d"
      and fin: "finished ?d \<longrightarrow> finished m \<and> finished r" by blast
    let ?st = "st\<lparr>objs := (objs st)[a := m] @ [r], slots := (slots st)[nat ?idx := length (objs st)]\<rparr>"
    have inv': "depInv sh tid old ?st"
      by (rule depInv_step [OF Cons.prems(1) dist a False fm fr fin])
    have len': "length (objs st) \<le> length (objs ?st)" by simp
    have proc': "processed ?st = processed st" by simp
    have rest': "\<forall>b \<in> set rest. b < length (objs ?st) \<and> b \<noteq> old" using rest by auto
    have card': "card (fst ` set sh - processed ?st) < fuel" using Cons.prems(3) by simp
    show ?thesis
    proof (cases "startDate ?d \<noteq> startDate r \<or> endDate ?d \<noteq> endDate r")
      case changed: True
      have din: "id ?d \<in> fst ` set sh"
      proof -
        from Cons.prems(1) a have "frame3 ?d \<in> set sh" by (simp add: depInv_def)
        then show ?thesis by (force simp: frame3_def)
      qed
      from call [OF inv' din card'] obtain st2 where
        c: "updateDependents fuel hol (id ?d) ?st = Some st2" and inv2: "depInv sh tid old st2"
        and p2: "processed ?st \<subseteq> processed st2" and l2: "length (objs ?st) \<le> length (objs st2)"
        by blast
      have rest2: "\<forall>b \<in> set rest. b < length (objs st2) \<and> b \<noteq> old" using rest' l2 by auto
      have "card (fst ` set sh - processed st2) \<le> card (fst ` set sh - processed ?st)"
        by (rule card_Diff_mono) (use p2 in auto)
      with card' have card2: "card (fst ` set sh - processed st2) < fuel" by linarith
      from Cons.IH [OF inv2 rest2 card2] obtain st3 where
        l3: "updateDependentsLoop fuel hol rest st2 = Some st3" and inv3: "depInv sh tid old st3"
        and p3: "processed st2 \<subseteq> processed st3" and len3: "length (objs st2) \<le> length (objs st3)"
        by blast
      have "updateDependentsLoop fuel hol (a # rest) st = Some st3"
        using False m r changed c l3 by (simp add: Let_def)
      moreover have "processed st \<subseteq> processed st3" using p2 p3 proc' by auto
      moreover have "length (objs st) \<le> length (objs st3)" using len' l2 len3 by linarith
      ultimately show ?thesis using inv3 by blast
    next
      case same: False
      from Cons.IH [OF inv' rest' card'] obtain st3 where
        l3: "updateDependentsLoop fuel hol rest ?st = Some st3" and inv3: "depInv sh tid old st3"
        and p3: "processed ?st \<subseteq> processed st3" and len3: "length (objs ?st) \<le> length (objs st3)"
        by blast
      have "updateDependentsLoop fuel hol (a # rest) st = Some st3"
        using False m r same l3 by (simp add: Let_def)
      moreover have "processed st \<subseteq> processed st3" using p3 proc' by auto
      moreover have "length (objs st) \<le> length (objs st3)" using len' len3 by linarith
      ultimately show ?thesis using inv3 by blast
    qed
  qed
qed

lemma updateDependents_inv:
  assumes wd: "workingDaysUnbounded hol" and dist: "distinct (map fst sh)"
  shows "depInv sh tid old st \<Longrightarrow> taskId \<in> fst ` set sh \<Longrightarrow>
         card (fst ` set sh - processed st) < fuel \<Longrightarrow>
         \<exists>st'. updateDependents fuel hol taskId st = Some st' \<and> depInv sh tid old st'
            \<and> processed st \<subseteq> processed st' \<and> length (objs st) \<le> length (objs st')"
proof (induction fuel arbitrary: taskId st)
  case 0
  then show ?case by simp
next
  case (Suc fuel)
  show ?case
  proof (cases "taskId \<in> processed st")
    case True
    with Suc.prems(1) show ?thesis by simp
  next
    case False
    let ?st1 = "st\<lparr>processed := insert taskId (processed st)\<rparr>"
    let ?sn = "case find (\<lambda>ut. id ut = taskId) (updatedTasksOf ?st1) of
                 None \<Rightarrow> - 1 | Some ut \<Rightarrow> if siNo ut = 0 then - 1 else siNo ut"
    let ?deps = "filter (\<lambda>a. dependsOnSiNo ?sn (objs ?st1 ! a)) (slots ?st1)"
    have inv1: "depInv sh tid old ?st1"
      using Suc.prems(1,2) by (simp add: depInv_def updatedTasksOf_def)
    have deps: "\<forall>a \<in> set ?deps. a < length (objs ?st1) \<and> a \<noteq> old"
      using Suc.prems(1) by (simp add: depInv_def)
    have card1: "card (fst ` set sh - processed ?st1) < fuel"
      using card_Diff_insert_less [OF _ Suc.prems(2) False Suc.prems(3)] by simp
    from loop_from_call [OF wd dist Suc.IH inv1 deps card1] obtain st' where
      l: "updateDependentsLoop fuel hol ?deps ?st1 = Some st'" and inv': "depInv sh tid old st'"
      and p: "processed ?st1 \<subseteq> processed st'" and len: "length (objs ?st1) \<le> length (objs st')"
      by blast
    have "updateDependents (Suc fuel) hol taskId st = Some st'"
      using False l by (simp add: Let_def)
    with inv' p len show ?thesis by auto
  qed
qed

lemma frame3_ids: "map frame3 xs = map frame3 ys \<Longrightarrow> map id xs = map id ys"
proof -
  assume "map frame3 xs = map frame3 ys"
  then have "map fst (map frame3 xs) = map fst (map frame3 ys)" by simp
  then show ?thesis by (simp add: frame3_def comp_def)
qed

lemma updateDependentTasks_finished:
  assumes wd: "workingDaysUnbounded hol" and dist: "distinct (map id tasks)"
    and i: "i < length tasks" and idU: "id U = id (tasks ! i)" and fin: "finished U"
    and fuel: "length tasks < fuel"
  shows "\<exists>R. updateDependentTasks fuel hol tasks U = Some R
           \<and> map frame3 R = map frame3 (tasks[i := U]) \<and> finished (R ! i)"
proof -
  let ?n = "length tasks"
  let ?sh = "map frame3 (tasks[i := U])"
  let ?st0 = "\<lparr>objs = tasks @ [U], slots = [0..<?n][i := ?n], processed = {}\<rparr>"
  have idx: "findIndex (\<lambda>t. id t = id U) tasks = int i"
    using findIndex_distinct [OF dist i] idU by simp
  have ids: "map fst ?sh = map id tasks"
  proof -
    have "map fst ?sh = map id (tasks[i := U])" by (simp add: frame3_def comp_def)
    also have "\<dots> = map id tasks" using idU by (simp add: map_update_same)
    finally show ?thesis .
  qed
  have dsh: "distinct (map fst ?sh)" using dist ids by simp
  have slot: "[0..<?n][i := ?n] ! j = (if j = i then ?n else j)" if "j < ?n" for j
    using that by (simp add: nth_list_update)
  have inv0: "depInv ?sh (id U) i ?st0"
    unfolding depInv_def
  proof (intro conjI)
    show "i < length (objs ?st0)" using i by simp
    show "\<forall>a \<in> set (slots ?st0). a < length (objs ?st0) \<and> a \<noteq> i"
    proof
      fix a assume "a \<in> set (slots ?st0)"
      then obtain j where j: "j < ?n" "a = [0..<?n][i := ?n] ! j"
        by (auto simp: in_set_conv_nth)
      with slot [OF j(1)] i show "a < length (objs ?st0) \<and> a \<noteq> i" by auto
    qed
    show "map frame3 (updatedTasksOf ?st0) = ?sh"
    proof (rule nth_equalityI)
      show "length (map frame3 (updatedTasksOf ?st0)) = length ?sh"
        by (simp add: updatedTasksOf_def)
    next
      fix j assume "j < length (map frame3 (updatedTasksOf ?st0))"
      then have j: "j < ?n" by (simp add: updatedTasksOf_def)
      then show "map frame3 (updatedTasksOf ?st0) ! j = ?sh ! j"
        using slot [OF j] by (simp add: updatedTasksOf_def nth_append nth_list_update)
    qed
    show "\<forall>a < length (objs ?st0). a \<noteq> i \<longrightarrow>
            frame3 (objs ?st0 ! a) \<in> set ?sh
            \<and> (id (objs ?st0 ! a) = id U \<longrightarrow> finished (objs ?st0 ! a))"
    proof (intro allI impI)
      fix a assume a: "a < length (objs ?st0)" and ai: "a \<noteq> i"
      show "frame3 (objs ?st0 ! a) \<in> set ?sh
            \<and> (id (objs ?st0 ! a) = id U \<longrightarrow> finished (objs ?st0 ! a))"
      proof (cases "a = ?n")
        case True
        have "?sh ! i = frame3 U" using i by simp
        moreover have "?sh ! i \<in> set ?sh" using i by (intro nth_mem) simp
        ultimately show ?thesis using True fin by (simp add: nth_append)
      next
        case False
        with a have an: "a < ?n" by simp
        have "?sh ! a = frame3 (tasks ! a)" using an ai by simp
        moreover have "?sh ! a \<in> set ?sh" using an by (intro nth_mem) simp
        moreover have "id (tasks ! a) \<noteq> id U"
          using dist an i ai idU by (simp add: distinct_conv_nth)
        ultimately show ?thesis using an by (simp add: nth_append)
      qed
    qed
    show "processed ?st0 \<subseteq> fst ` set ?sh" by simp
  qed
  have tin: "id U \<in> fst ` set ?sh"
  proof -
    have "id U \<in> set (map id tasks)" using i idU by (metis length_map nth_map nth_mem)
    then show ?thesis using ids by (metis set_map)
  qed
  have "card (fst ` set ?sh) \<le> length ?sh"
    by (metis card_length card_image_le le_trans List.finite_set)
  then have card0: "card (fst ` set ?sh - processed ?st0) < fuel" using fuel by simp
  from updateDependents_inv [OF wd dsh inv0 tin card0] obtain st' where
    r: "updateDependents fuel hol (id U) ?st0 = Some st'" and inv': "depInv ?sh (id U) i st'"
    by blast
  let ?R = "updatedTasksOf st'"
  have shR: "map frame3 ?R = ?sh" using inv' by (simp add: depInv_def)
  then have lenR: "length (slots st') = ?n" by (metis length_map length_list_update updatedTasksOf_def)
  have Ri: "?R ! i = objs st' ! (slots st' ! i)"
    using i lenR by (intro updatedTasksOf_nth) simp
  have addr: "slots st' ! i < length (objs st')" "slots st' ! i \<noteq> i"
    using inv' i lenR by (auto simp: depInv_def)
  have "frame3 (?R ! i) = frame3 U"
  proof -
    have "frame3 (?R ! i) = map frame3 ?R ! i"
      using i lenR by (simp add: updatedTasksOf_def)
    also have "\<dots> = frame3 U" unfolding shR using i by simp
    finally show ?thesis .
  qed
  then have "id (?R ! i) = id U" by (simp add: frame3_def)
  with inv' addr Ri have finR: "finished (?R ! i)" by (simp add: depInv_def)
  have "updateDependentTasks fuel hol tasks U = Some ?R"
    using idx r by (simp add: updateDependentTasks_def Let_def)
  with shR finR show ?thesis by blast
qed

lemma applyUpdate_finished:
  assumes "truthyDate (u_actualEndDate update)" and "u_progress update = None"
    and "\<not> truthyDate (u_actualStartDate update) \<or> progress task \<noteq> Num 0"
    and "u_id update = None" and "u_level update = None"
  shows "finished (applyUpdate task (processUpdate hol task update))"
    and "id (applyUpdate task (processUpdate hol task update)) = id task"
    and "level (applyUpdate task (processUpdate hol task update)) = level task"
  using assms
  by (auto simp: processUpdate_def Let_def applyUpdate_def orElse_def truthyDate_def
      truthyProgress_def finished_def split: option.splits)

lemma updateParentStatus_nth:
  assumes "distinct (map id L)" and "j < length L"
  shows "updateParentStatus L ! j
           = (L ! j)\<lparr>isParent := scanDirectChild (level (L ! j)) (drop (j + 1) L)\<rparr>"
proof -
  have "findIndex (\<lambda>t. id t = id (L ! j)) L = int j"
    by (rule findIndex_distinct [OF assms])
  with assms(2) show ?thesis by (simp add: updateParentStatus_def Let_def)
qed

lemma updateParentStatus_ids: "map id (updateParentStatus L) = map id L"
  by (simp add: updateParentStatus_def Let_def comp_def)

lemma scanDirectChild_frame:
  "map frame3 xs = map frame3 ys \<Longrightarrow> scanDirectChild l xs = scanDirectChild l ys"
proof (induction xs arbitrary: ys)
  case Nil
  then show ?case by simp
next
  case (Cons x xs)
  then obtain y ys' where ys: "ys = y # ys'" by (cases ys) auto
  with Cons.prems have f: "frame3 x = frame3 y" and r: "map frame3 xs = map frame3 ys'"
    by simp_all
  have "scanDirectChild l xs = scanDirectChild l ys'" by (rule Cons.IH [OF r])
  with f ys show ?case by (simp add: frame3_def)
qed

lemma aggregate_untouched:
  assumes frame: "\<And>cs x. shape (derive cs x) = shape x"
    and dist: "distinct (map id L)" and i: "i < length L" and np: "\<not> isParent (L ! i)"
  shows "foldl (aggregateStep derive) L
           (sort_key (\<lambda>t. - level t) (filter (\<lambda>t. \<not> isDeleted t \<and> isParent t) L)) ! i = L ! i"
proof (rule fold_other [OF frame i])
  have inj: "inj_on id (set L)" using dist by (simp add: distinct_map)
  show "\<forall>b \<in> set (sort_key (\<lambda>t. - level t) (filter (\<lambda>t. \<not> isDeleted t \<and> isParent t) L)).
          id b \<noteq> id (L ! i)"
  proof
    fix b assume "b \<in> set (sort_key (\<lambda>t. - level t) (filter (\<lambda>t. \<not> isDeleted t \<and> isParent t) L))"
    then have b: "b \<in> set L" "isParent b" by auto
    with np have "b \<noteq> L ! i" by auto
    with b(1) inj i show "id b \<noteq> id (L ! i)" by (metis inj_onD nth_mem)
  qed
qed

lemma aggregate_ids:
  assumes "\<And>cs x. shape (derive cs x) = shape x"
  shows "map id (foldl (aggregateStep derive) L ps) = map id L"
  by (rule shape_ids [OF fold_shape [OF assms]])

lemma updateWbsNumbers_progress:
  "i < length L \<Longrightarrow> progress (updateWbsNumbers L ! i) = progress (L ! i)"
  by (simp add: updateWbsNumbers_def Let_def)

lemma recompute_keeps_leaf_progress:
  assumes dist: "distinct (map id R)" and i: "i < length R"
    and leaf: "\<not> scanDirectChild (level (R ! i)) (drop (i + 1) R)"
  shows "progress (recompute hol R ! i) = progress (R ! i)"
proof -
  let ?L1 = "updateParentStatus R"
  let ?L2 = "updateParentDates hol ?L1"
  let ?L3 = "updateParentProgress ?L2"
  have l1: "length ?L1 = length R" by (simp add: updateParentStatus_def)
  have e1: "?L1 ! i = (R ! i)\<lparr>isParent := False\<rparr>"
    using updateParentStatus_nth [OF dist i] leaf by simp
  have d1: "distinct (map id ?L1)" using dist by (simp add: updateParentStatus_ids)
  have i1: "i < length ?L1" using i l1 by simp
  have np1: "\<not> isParent (?L1 ! i)" using e1 by simp
  have e2: "?L2 ! i = ?L1 ! i"
    unfolding updateParentDates_fold
    by (rule aggregate_untouched [OF derivedDates_shape d1 i1 np1])
  have ids2: "map id ?L2 = map id ?L1"
    unfolding updateParentDates_fold by (rule aggregate_ids [OF derivedDates_shape])
  have d2: "distinct (map id ?L2)" using d1 ids2 by simp
  have i2: "i < length ?L2" using i1 ids2 by (metis length_map)
  have np2: "\<not> isParent (?L2 ! i)" using e2 np1 by simp
  have e3: "?L3 ! i = ?L2 ! i"
    unfolding updateParentProgress_fold
    by (rule aggregate_untouched [OF derivedProgress_shape d2 i2 np2])
  have ids3: "map id ?L3 = map id ?L2"
    unfolding updateParentProgress_fold by (rule aggregate_ids [OF derivedProgress_shape])
  have i3: "i < length ?L3" using i2 ids3 by (metis length_map)
  have "progress (recompute hol R ! i) = progress (?L3 ! i)"
    unfolding recompute_def by (rule updateWbsNumbers_progress [OF i3])
  with e3 e2 e1 show ?thesis by simp
qed

text \<open>
  Where an actual end date does complete the task. Let the task at position \<open>i\<close> have its
  parent flag unset and no direct child behind it. An \<open>updateTask\<close> call on it whose
  update carries an actual end date, and carries no progress, identifier or depth, leaves
  the task with progress 100, provided the update does not also carry an actual start
  date while the stored progress is 0. And \<open>adjustTaskDatesWithPredecessors\<close> returns
  progress 100 for a task with an actual end date that names a predecessor. The
  identifiers are distinct, every date is followed by a working day, and the propagation
  to dependents is given more fuel than there are tasks.
\<close>

lemma actual_end_date_completes_leaf:
  assumes "workingDaysUnbounded hol"
    and "distinct (map id tasks)" and "i < length tasks" and "length tasks < fuel"
    and "\<not> isParent (tasks ! i)" and "leafAt tasks i"
    and "truthyDate (u_actualEndDate update)" and "u_progress update = None"
    and "\<not> truthyDate (u_actualStartDate update) \<or> progress (tasks ! i) \<noteq> Num 0"
    and "u_id update = None" and "u_level update = None"
    and "\<not> noPredecessors t" and "actualEndDate t \<noteq> None"
  shows "(\<exists>R. updateTask fuel hol tasks (id (tasks ! i)) update = Some R \<and> progress (R ! i) = Num 100)
       \<and> (\<exists>t'. adjustTaskDatesWithPredecessors hol t allTasks = Some t' \<and> progress t' = Num 100)"
proof
  let ?task = "tasks ! i"
  let ?U = "applyUpdate ?task (processUpdate hol ?task update)"
  note U = applyUpdate_finished [OF assms(7-11), of hol]
  have idx: "findIndex (\<lambda>t. id t = id ?task) tasks = int i"
    by (rule findIndex_distinct [OF assms(2,3)])
  from updateDependentTasks_finished [OF assms(1,2,3) U(2) U(1) assms(4)]
  obtain R where R: "updateDependentTasks fuel hol tasks ?U = Some R"
    and sh: "map frame3 R = map frame3 (tasks[i := ?U])" and fin: "finished (R ! i)"
    by blast
  have lenR: "length R = length tasks" using sh by (metis length_map length_list_update)
  have iR: "i < length R" using assms(3) lenR by simp
  have "map id R = map id (tasks[i := ?U])" by (rule frame3_ids [OF sh])
  also have "\<dots> = map id tasks" using U(2) by (simp add: map_update_same)
  finally have distR: "distinct (map id R)" using assms(2) by simp
  have "frame3 (R ! i) = frame3 ?U"
    using sh iR assms(3) by (metis length_list_update nth_list_update_eq nth_map)
  then have lev: "level (R ! i) = level ?task" using U(3) by (simp add: frame3_def)
  have "map frame3 (drop (i + 1) R) = drop (i + 1) (map frame3 R)" by (simp add: drop_map)
  also have "\<dots> = map frame3 (drop (i + 1) (tasks[i := ?U]))" by (simp add: sh drop_map)
  also have "\<dots> = map frame3 (drop (i + 1) tasks)" by simp
  finally have "scanDirectChild (level ?task) (drop (i + 1) R)
      = scanDirectChild (level ?task) (drop (i + 1) tasks)"
    by (rule scanDirectChild_frame)
  with assms(6) lev have leaf: "\<not> scanDirectChild (level (R ! i)) (drop (i + 1) R)"
    by (simp add: leafAt_def)
  have "progress (recompute hol R ! i) = Num 100"
    using recompute_keeps_leaf_progress [OF distR iR leaf] fin by (simp add: finished_def)
  moreover have "updateTask fuel hol tasks (id ?task) update = Some (recompute hol R)"
    using idx assms(5) R by (simp add: updateTask_def Let_def)
  ultimately show "\<exists>R. updateTask fuel hol tasks (id ?task) update = Some R \<and> progress (R ! i) = Num 100"
    by blast
next
  from assms(12) adjustInPlace_total [OF assms(1), of t allTasks] obtain t2 where
    t2: "adjustInPlace hol t allTasks = Some t2" by blast
  from adjustInPlace_frame [OF t2] assms(13) have p2: "progress t2 = Num 100" by simp
  from adjustDates_Some [OF assms(1), of t2] obtain t' where
    "adjustDates hol t2 = Some t'" "progress t' = progress t2" by blast
  with t2 p2 assms(12) show "\<exists>t'. adjustTaskDatesWithPredecessors hol t allTasks = Some t' \<and> progress t' = Num 100"
    by (simp add: adjustTaskDatesWithPredecessors_def)
qed

text \<open>
  A task without predecessors leaves \<open>adjustTaskDatesWithPredecessors\<close> through its first
  line, which returns \<open>adjustDates\<close> of the task: the progress is not touched, whatever
  the actual end date.
\<close>

lemma no_predecessors_keeps_progress:
  "map_option (\<lambda>t. (progress t, actualEndDate t))
     (adjustTaskDatesWithPredecessors sundaysOff
        ((blankTask ''b'' 2 0)\<lparr>actualEndDate := Some 0, progress := Num 30\<rparr>) threeTasks)
     = Some (Num 30, Some 0)"
  by code_simp

text \<open>
  Claim C10 fails for an update that carries both actual dates. The second of three root
  tasks, not a parent and with progress 0, is updated with an actual start date and an
  actual end date and no progress. \<open>updateTask\<close> sets the progress of the update to 100
  for the actual end date and then overwrites it with 50 for the actual start date: the
  task ends with its actual end date set and progress 50. With the actual end date alone
  the same call gives 100.
\<close>

theorem both_actual_dates_leave_progress_50:
  "(isParent (threeTasks ! 1), childrenByDepth threeTasks 1, progress (threeTasks ! 1))
     = (False, [], Num 0)
   \<and> map_option (map (\<lambda>t. (id t, actualStartDate t, actualEndDate t, progress t)))
       (updateTask 10 sundaysOff threeTasks ''b''
          (emptyUpdate\<lparr>u_actualStartDate := Some (Some 0),
                        u_actualEndDate := Some (Some 86400000)\<rparr>))
     = Some [(''a'', None, None, Num 0), (''b'', Some 0, Some 86400000, Num 50),
             (''c'', None, None, Num 0)]
   \<and> map_option (map (\<lambda>t. (id t, actualStartDate t, actualEndDate t, progress t)))
       (updateTask 10 sundaysOff threeTasks ''b''
          (emptyUpdate\<lparr>u_actualEndDate := Some (Some 86400000)\<rparr>))
     = Some [(''a'', None, None, Num 0), (''b'', None, Some 86400000, Num 100),
             (''c'', None, None, Num 0)]"
  by code_simp

end
